theory Spec2Isabelle
  imports Main "HOL-Library.Word"
begin

section \<open>The indexed skip list of \<^verbatim>\<open>slice/skip/skip.go\<close>\<close>

text \<open>
  The Go code works on heap nodes reached through pointers, so the model has an explicit
  store: a node lives at an address, a pointer is \<open>addr option\<close> (\<open>None\<close> is
  \<^verbatim>\<open>nil\<close>), and each function takes the store and returns the new one.  A Go
  run-time panic (a nil dereference, a slice index out of range) is a value of the
  result; a loop that follows pointers may not return on a cyclic store, so those loops
  are partial functions whose value \<open>None\<close> means "does not return".

  \<^verbatim>\<open>uint64\<close> is \<open>64 word\<close> (all arithmetic wraps).  The \<^verbatim>\<open>uint8\<close> fields
  \<^verbatim>\<open>level\<close> and \<^verbatim>\<open>maxLevel\<close> are natural numbers; the one place where the
  code can wrap them (\<^verbatim>\<open>maxLevel-1\<close> in \<^verbatim>\<open>generateLevel\<close>) is written out.
\<close>

subsection \<open>Results\<close>

datatype error = NilDeref | IndexOutOfRange

type_synonym 'a res = "(error + 'a) option"

definition ret :: "'a \<Rightarrow> 'a res" where
  "ret x = Some (Inr x)"

definition panic :: "error \<Rightarrow> 'a res" where
  "panic e = Some (Inl e)"

definition bnd :: "'a res \<Rightarrow> ('a \<Rightarrow> 'b res) \<Rightarrow> 'b res" where
  "bnd m f = (case m of None \<Rightarrow> None | Some (Inl e) \<Rightarrow> Some (Inl e) | Some (Inr x) \<Rightarrow> f x)"

text \<open>A \<^verbatim>\<open>for\<close> loop over a fixed sequence of indices, stopping at the first panic.\<close>

fun for_levels :: "(nat \<Rightarrow> 's \<Rightarrow> 's res) \<Rightarrow> nat list \<Rightarrow> 's \<Rightarrow> 's res" where
  "for_levels body [] s = ret s"
| "for_levels body (i # rest) s = bnd (body i s) (for_levels body rest)"

subsection \<open>Entries, nodes, the store\<close>

type_synonym addr = nat

type_synonym u64 = "64 word"

text \<open>
  Modelled from the spec: the \<^verbatim>\<open>Entry\<close> interface is declared outside
  \<^verbatim>\<open>skip.go\<close>.  The spec makes an entry an opaque value with one capability, a
  three-way comparison on keys that induces a total order; the payload is not compared.
  An entry is a key with a payload.
\<close>

type_synonym Entry = "int \<times> nat"

definition Compare :: "Entry \<Rightarrow> Entry \<Rightarrow> int" where
  "Compare a b = (if fst a < fst b then - 1 else if fst a = fst b then 0 else 1)"

text \<open>
  Modelled from the spec: the \<^verbatim>\<open>node\<close> type and \<^verbatim>\<open>newNode\<close> are declared
  outside \<^verbatim>\<open>skip.go\<close>.  A tower node has the stored entry (nil for the head), one
  forward pointer per level and one width per level; a new node of a given height has
  all forward pointers nil and all widths 0.
\<close>

record node =
  entry :: "Entry option"
  forward :: "addr option list"
  widths :: "u64 list"

record heap =
  cells :: "addr \<Rightarrow> node"
  alloc :: addr

definition empty_node :: node where
  "empty_node = \<lparr>entry = None, forward = [], widths = []\<rparr>"

definition heap0 :: heap where
  "heap0 = \<lparr>cells = (\<lambda>_. empty_node), alloc = 0\<rparr>"

definition newNode :: "heap \<Rightarrow> Entry option \<Rightarrow> nat \<Rightarrow> heap \<times> addr" where
  "newNode h e maxLevels =
     (h\<lparr>cells := (cells h)(alloc h := \<lparr>entry = e, forward = replicate maxLevels None,
                                         widths = replicate maxLevels 0\<rparr>),
        alloc := Suc (alloc h)\<rparr>, alloc h)"

record SkipList =
  maxLevel :: nat
  level :: nat
  head :: addr
  num :: u64
  cache :: "addr option list"
  posCache :: "u64 list"

subsection \<open>Reading and writing through pointers and slices\<close>

definition at :: "'a list \<Rightarrow> nat \<Rightarrow> 'a res" where
  "at xs i = (if i < length xs then ret (xs ! i) else panic IndexOutOfRange)"

definition put :: "'a list \<Rightarrow> nat \<Rightarrow> 'a \<Rightarrow> 'a list res" where
  "put xs i v = (if i < length xs then ret (xs[i := v]) else panic IndexOutOfRange)"

definition deref :: "heap \<Rightarrow> addr option \<Rightarrow> node res" where
  "deref h p = (case p of None \<Rightarrow> panic NilDeref | Some a \<Rightarrow> ret (cells h a))"

definition get_forward :: "heap \<Rightarrow> addr option \<Rightarrow> nat \<Rightarrow> addr option res" where
  "get_forward h p i = bnd (deref h p) (\<lambda>nd. at (forward nd) i)"

definition get_width :: "heap \<Rightarrow> addr option \<Rightarrow> nat \<Rightarrow> u64 res" where
  "get_width h p i = bnd (deref h p) (\<lambda>nd. at (widths nd) i)"

definition set_forward :: "heap \<Rightarrow> addr option \<Rightarrow> nat \<Rightarrow> addr option \<Rightarrow> heap res" where
  "set_forward h p i v =
     (case p of None \<Rightarrow> panic NilDeref
      | Some a \<Rightarrow> bnd (put (forward (cells h a)) i v)
          (\<lambda>fs. ret (h\<lparr>cells := (cells h)(a := (cells h a)\<lparr>forward := fs\<rparr>)\<rparr>)))"

definition set_width :: "heap \<Rightarrow> addr option \<Rightarrow> nat \<Rightarrow> u64 \<Rightarrow> heap res" where
  "set_width h p i v =
     (case p of None \<Rightarrow> panic NilDeref
      | Some a \<Rightarrow> bnd (put (widths (cells h a)) i v)
          (\<lambda>ws. ret (h\<lparr>cells := (cells h)(a := (cells h a)\<lparr>widths := ws\<rparr>)\<rparr>)))"

definition set_entry :: "heap \<Rightarrow> addr \<Rightarrow> Entry option \<Rightarrow> heap" where
  "set_entry h a e = h\<lparr>cells := (cells h)(a := (cells h a)\<lparr>entry := e\<rparr>)\<rparr>"

text \<open>\<^verbatim>\<open>n.Compare(e)\<close> is \<^verbatim>\<open>n.entry.Compare(e)\<close>: it panics on a nil node and on
  a node that holds no entry (the head).\<close>

definition node_Compare :: "heap \<Rightarrow> addr option \<Rightarrow> Entry \<Rightarrow> int res" where
  "node_Compare h p e =
     bnd (deref h p) (\<lambda>nd. case entry nd of None \<Rightarrow> panic NilDeref | Some x \<Rightarrow> ret (Compare x e))"

subsection \<open>generateLevel\<close>

text \<open>
  The random source is a parameter: \<open>draws k\<close> tells whether the \<open>k\<close>-th call of
  \<^verbatim>\<open>generator.Float64()\<close> within this call of \<^verbatim>\<open>generateLevel\<close> returned a value
  \<^verbatim>\<open>>= p\<close>.  The bound \<^verbatim>\<open>maxLevel-1\<close> is computed in \<^verbatim>\<open>uint8\<close>.
\<close>

function generateLevel_from :: "nat \<Rightarrow> (nat \<Rightarrow> bool) \<Rightarrow> nat \<Rightarrow> nat" where
  "generateLevel_from bound draws lvl =
     (if lvl < bound then (if draws (lvl - 1) then lvl else generateLevel_from bound draws (Suc lvl))
      else lvl)"
  by pat_completeness auto

termination
  by (relation "measure (\<lambda>(bound, draws, lvl). bound - lvl)") auto

declare generateLevel_from.simps [simp del]

definition generateLevel :: "nat \<Rightarrow> (nat \<Rightarrow> bool) \<Rightarrow> nat" where
  "generateLevel ml draws = generateLevel_from ((ml + 255) mod 256) draws 1"

subsection \<open>search and searchByPosition\<close>

text \<open>The inner loop of \<^verbatim>\<open>search\<close>: advance while the next node exists and compares
  less than \<open>e\<close>.\<close>

partial_function (option) advance :: "heap \<Rightarrow> nat \<Rightarrow> Entry \<Rightarrow> addr \<Rightarrow> u64 \<Rightarrow> (addr \<times> u64) res" where
  "advance h offset e n pos =
     (case get_forward h (Some n) offset of
        None \<Rightarrow> None
      | Some (Inl err) \<Rightarrow> Some (Inl err)
      | Some (Inr None) \<Rightarrow> Some (Inr (n, pos))
      | Some (Inr (Some m)) \<Rightarrow>
          (case node_Compare h (Some m) e of
             None \<Rightarrow> None
           | Some (Inl err) \<Rightarrow> Some (Inl err)
           | Some (Inr c) \<Rightarrow>
               if c < 0 then
                 (case get_width h (Some n) offset of
                    None \<Rightarrow> None
                  | Some (Inl err) \<Rightarrow> Some (Inl err)
                  | Some (Inr w) \<Rightarrow> advance h offset e m (pos + w))
               else Some (Inr (n, pos))))"

text \<open>The state of the outer loop: the cursor, the position, and the two trails.  With
  \<open>upd = False\<close> the caller passed \<^verbatim>\<open>nil\<close> for both trails and nothing is
  recorded.\<close>

type_synonym trail = "addr option list \<times> u64 list"

declare advance.simps [code]

definition record_trail :: "bool \<Rightarrow> nat \<Rightarrow> addr option \<Rightarrow> u64 \<Rightarrow> trail \<Rightarrow> trail res" where
  "record_trail upd offset n pos t =
     (if upd then bnd (put (fst t) offset n) (\<lambda>c. bnd (put (snd t) offset pos) (\<lambda>pc. ret (c, pc)))
      else ret t)"

definition search_step :: "heap \<Rightarrow> Entry \<Rightarrow> bool \<Rightarrow> nat \<Rightarrow> addr \<times> u64 \<times> trail \<Rightarrow> (addr \<times> u64 \<times> trail) res" where
  "search_step h e upd offset st =
     (case st of (n, pos, t) \<Rightarrow>
        bnd (advance h offset e n pos) (\<lambda>(n', pos').
        bnd (record_trail upd offset (Some n') pos' t) (\<lambda>t'. ret (n', pos', t'))))"

text \<open>\<^verbatim>\<open>for i := 0; i <= sl.level; i++\<close> with \<^verbatim>\<open>offset = sl.level - i\<close>: the offsets
  run from \<open>level\<close> down to \<open>0\<close>.\<close>

definition search :: "heap \<Rightarrow> SkipList \<Rightarrow> Entry \<Rightarrow> bool \<Rightarrow> (addr option \<times> u64 \<times> SkipList) res" where
  "search h sl e upd =
     (if num sl = 0 then ret (None, 1, sl)
      else bnd (for_levels (search_step h e upd) (rev [0..<Suc (level sl)])
                  (head sl, 0, (cache sl, posCache sl)))
        (\<lambda>(n, pos, t). bnd (get_forward h (Some n) 0)
        (\<lambda>f. ret (f, pos + 1, sl\<lparr>cache := fst t, posCache := snd t\<rparr>))))"

definition resetMaxLevel_step :: "heap \<Rightarrow> nat \<Rightarrow> SkipList \<Rightarrow> SkipList res" where
  "resetMaxLevel_step h k sl =
     bnd (get_forward h (Some (head sl)) (level sl - 1)) (\<lambda>f.
       if f = None \<and> level sl > 1 then ret (sl\<lparr>level := level sl - 1\<rparr>) else ret sl)"

text \<open>The loop of \<^verbatim>\<open>resetMaxLevel\<close> lowers the level by one per round and stops at
  the first round whose condition fails; once it fails it fails in every later round
  (nothing it reads changes), so running the step \<open>level\<close> times is the loop.\<close>

definition resetMaxLevel :: "heap \<Rightarrow> SkipList \<Rightarrow> SkipList res" where
  "resetMaxLevel h sl =
     (if level sl < 1 then ret (sl\<lparr>level := 1\<rparr>)
      else for_levels (resetMaxLevel_step h) [0..<level sl] sl)"

text \<open>The inner loop of \<^verbatim>\<open>searchByPosition\<close>: the cursor may become nil, and the
  loop condition then dereferences it.\<close>

partial_function (option) advanceByPosition ::
    "heap \<Rightarrow> nat \<Rightarrow> u64 \<Rightarrow> addr option \<Rightarrow> u64 \<Rightarrow> (addr option \<times> u64) res" where
  "advanceByPosition h offset position n pos =
     (case get_width h n offset of
        None \<Rightarrow> None
      | Some (Inl err) \<Rightarrow> Some (Inl err)
      | Some (Inr w) \<Rightarrow>
          if w \<noteq> 0 \<and> pos + w \<le> position then
            (case get_forward h n offset of
               None \<Rightarrow> None
             | Some (Inl err) \<Rightarrow> Some (Inl err)
             | Some (Inr m) \<Rightarrow> advanceByPosition h offset position m (pos + w))
          else Some (Inr (n, pos)))"

declare advanceByPosition.simps [code]

definition searchByPosition_step ::
    "heap \<Rightarrow> u64 \<Rightarrow> bool \<Rightarrow> nat \<Rightarrow> addr option \<times> u64 \<times> trail \<Rightarrow> (addr option \<times> u64 \<times> trail) res" where
  "searchByPosition_step h position upd offset st =
     (case st of (n, pos, t) \<Rightarrow>
        bnd (advanceByPosition h offset position n pos) (\<lambda>(n', pos').
        bnd (record_trail upd offset n' pos' t) (\<lambda>t'. ret (n', pos', t'))))"

definition searchByPosition :: "heap \<Rightarrow> SkipList \<Rightarrow> u64 \<Rightarrow> bool \<Rightarrow> (addr option \<times> u64 \<times> SkipList) res" where
  "searchByPosition h sl position upd =
     (if num sl = 0 then ret (None, 1, sl)
      else if position > num sl then ret (None, 1, sl)
      else bnd (for_levels (searchByPosition_step h position upd) (rev [0..<Suc (level sl)])
                  (Some (head sl), 0, (cache sl, posCache sl)))
        (\<lambda>(n, pos, t). ret (n, pos + 1, sl\<lparr>cache := fst t, posCache := snd t\<rparr>)))"

subsection \<open>insertNode\<close>

text \<open>\<^verbatim>\<open>for i := sl.level; i < nodeLevel; i++ { cache[i] = sl.head }\<close>\<close>

definition raise_step :: "nat \<Rightarrow> SkipList \<Rightarrow> SkipList res" where
  "raise_step i sl = bnd (put (cache sl) i (Some (head sl))) (\<lambda>c. ret (sl\<lparr>cache := c\<rparr>))"

text \<open>The body of the splice loop, for one level \<open>i < nodeLevel\<close>.\<close>

definition splice_step :: "SkipList \<Rightarrow> addr \<Rightarrow> u64 \<Rightarrow> nat \<Rightarrow> heap \<Rightarrow> heap res" where
  "splice_step sl nn pos i h =
     bnd (at (cache sl) i) (\<lambda>ci.
     bnd (get_forward h ci i) (\<lambda>f.
     bnd (set_forward h (Some nn) i f) (\<lambda>h1.
     bnd (set_forward h1 ci i (Some nn)) (\<lambda>h2.
     bnd (get_width h2 ci i) (\<lambda>formerWidth.
     bnd (if formerWidth = 0 then set_width h2 (Some nn) i 0
          else bnd (at (posCache sl) i) (\<lambda>pc. set_width h2 (Some nn) i (pc + formerWidth + 1 - pos)))
       (\<lambda>h3.
     bnd (get_forward h3 ci i) (\<lambda>f'.
       if f' \<noteq> None then bnd (at (posCache sl) i) (\<lambda>pc. set_width h3 ci i (pos - pc))
       else ret h3)))))))"

text \<open>The body of the loop over the levels above the new node.\<close>

definition widen_step :: "SkipList \<Rightarrow> nat \<Rightarrow> heap \<Rightarrow> heap res" where
  "widen_step sl i h =
     bnd (at (cache sl) i) (\<lambda>ci.
     bnd (get_forward h ci i) (\<lambda>f.
       if f = None then ret h
       else bnd (get_width h ci i) (\<lambda>w. set_width h ci i (w + 1))))"

definition insertNode ::
    "(nat \<Rightarrow> bool) \<Rightarrow> heap \<Rightarrow> SkipList \<Rightarrow> addr option \<Rightarrow> Entry \<Rightarrow> u64 \<Rightarrow> bool
      \<Rightarrow> (heap \<times> SkipList \<times> Entry option) res" where
  "insertNode draws h sl n e pos allowDuplicate =
     bnd (if \<not> allowDuplicate \<and> n \<noteq> None
          then bnd (node_Compare h n e) (\<lambda>c. ret (c = 0)) else ret False) (\<lambda>update.
       if update then
         bnd (deref h n) (\<lambda>nd. ret (set_entry h (the n) (Some e), sl, entry nd))
       else
         let sl1 = sl\<lparr>num := num sl + 1\<rparr>;
             nodeLevel = generateLevel (maxLevel sl1) draws
         in bnd (if nodeLevel > level sl1
                 then bnd (for_levels raise_step [level sl1..<nodeLevel] sl1)
                        (\<lambda>s. ret (s\<lparr>level := nodeLevel\<rparr>))
                 else ret sl1) (\<lambda>sl2.
            case newNode h (Some e) nodeLevel of (h1, nn) \<Rightarrow>
            bnd (for_levels (splice_step sl2 nn pos) [0..<nodeLevel] h1) (\<lambda>h2.
            bnd (for_levels (widen_step sl2) [nodeLevel..<level sl2] h2) (\<lambda>h3.
              ret (h3, sl2, None)))))"

subsection \<open>The public operations\<close>

definition init :: "heap \<Rightarrow> nat \<Rightarrow> heap \<times> SkipList" where
  "init h ml =
     (case newNode h None ml of (h', a) \<Rightarrow>
        (h', \<lparr>maxLevel = ml, level = 0, head = a, num = 0,
              cache = replicate ml None, posCache = replicate ml 0\<rparr>))"

text \<open>The dynamic type of the argument of \<^verbatim>\<open>New\<close>; \<open>TOther\<close> is any type that is
  not an unsigned integer type of the \<^verbatim>\<open>switch\<close>.\<close>

datatype gotype = TUint8 | TUint16 | TUint32 | TUint64 | TUint | TOther

definition maxLevel_of :: "gotype \<Rightarrow> nat" where
  "maxLevel_of t = (case t of TUint8 \<Rightarrow> 8 | TUint16 \<Rightarrow> 16 | TUint32 \<Rightarrow> 32
                    | TUint64 \<Rightarrow> 64 | TUint \<Rightarrow> 64 | TOther \<Rightarrow> 0)"

definition New :: "heap \<Rightarrow> gotype \<Rightarrow> heap \<times> SkipList" where
  "New h t = init h (maxLevel_of t)"

definition Len :: "SkipList \<Rightarrow> u64" where
  "Len sl = num sl"

definition get1 :: "heap \<Rightarrow> SkipList \<Rightarrow> Entry \<Rightarrow> Entry option res" where
  "get1 h sl e =
     bnd (search h sl e False) (\<lambda>(n, pos, sl').
       bnd (if n \<noteq> None then bnd (node_Compare h n e) (\<lambda>c. ret (c = 0)) else ret False) (\<lambda>hit.
         if hit then bnd (deref h n) (\<lambda>nd. ret (entry nd)) else ret None))"

fun Get :: "heap \<Rightarrow> SkipList \<Rightarrow> Entry list \<Rightarrow> Entry option list res" where
  "Get h sl [] = ret []"
| "Get h sl (e # es) = bnd (get1 h sl e) (\<lambda>r. bnd (Get h sl es) (\<lambda>rs. ret (r # rs)))"

definition GetWithPosition :: "heap \<Rightarrow> SkipList \<Rightarrow> Entry \<Rightarrow> (Entry option \<times> u64) res" where
  "GetWithPosition h sl e =
     bnd (search h sl e False) (\<lambda>(n, pos, sl').
       if n = None then ret (None, 0)
       else bnd (deref h n) (\<lambda>nd. ret (entry nd, pos - 1)))"

definition ByPosition :: "heap \<Rightarrow> SkipList \<Rightarrow> u64 \<Rightarrow> Entry option res" where
  "ByPosition h sl position =
     bnd (searchByPosition h sl (position + 1) False) (\<lambda>(n, pos, sl').
       if n = None then ret None else bnd (deref h n) (\<lambda>nd. ret (entry nd)))"

definition insert1 :: "(nat \<Rightarrow> bool) \<Rightarrow> heap \<Rightarrow> SkipList \<Rightarrow> Entry \<Rightarrow> (heap \<times> SkipList \<times> Entry option) res" where
  "insert1 draws h sl e =
     bnd (search h sl e True) (\<lambda>(n, pos, sl'). insertNode draws h sl' n e pos False)"

text \<open>\<^verbatim>\<open>Insert(entries...)\<close>: each entry comes with the draws of its own call of
  \<^verbatim>\<open>generateLevel\<close>.\<close>

fun Insert :: "heap \<Rightarrow> SkipList \<Rightarrow> ((nat \<Rightarrow> bool) \<times> Entry) list \<Rightarrow> (heap \<times> SkipList \<times> Entry option list) res" where
  "Insert h sl [] = ret (h, sl, [])"
| "Insert h sl ((draws, e) # es) =
     bnd (insert1 draws h sl e) (\<lambda>(h1, sl1, r).
     bnd (Insert h1 sl1 es) (\<lambda>(h2, sl2, rs). ret (h2, sl2, r # rs)))"

definition InsertAtPosition :: "(nat \<Rightarrow> bool) \<Rightarrow> heap \<Rightarrow> SkipList \<Rightarrow> u64 \<Rightarrow> Entry \<Rightarrow> (heap \<times> SkipList) res" where
  "InsertAtPosition draws h sl position e =
     (let position' = (if position > num sl then num sl else position)
      in bnd (searchByPosition h sl position' True) (\<lambda>(n, pos, sl').
         bnd (insertNode draws h sl' n e pos True) (\<lambda>(h', sl'', r). ret (h', sl''))))"

definition ReplaceAtPosition :: "heap \<Rightarrow> SkipList \<Rightarrow> u64 \<Rightarrow> Entry \<Rightarrow> heap res" where
  "ReplaceAtPosition h sl position e =
     bnd (searchByPosition h sl (position + 1) False) (\<lambda>(n, pos, sl').
       case n of None \<Rightarrow> ret h | Some a \<Rightarrow> ret (set_entry h a (Some e)))"

text \<open>The body of the unlink loop of \<^verbatim>\<open>delete\<close>, for one level \<open>i \<le> level\<close>.\<close>

definition unlink_step :: "SkipList \<Rightarrow> addr option \<Rightarrow> nat \<Rightarrow> heap \<Rightarrow> heap res" where
  "unlink_step sl n i h =
     bnd (at (cache sl) i) (\<lambda>ci.
     bnd (get_forward h ci i) (\<lambda>f.
       if f \<noteq> n then
         (if f \<noteq> None then bnd (get_width h ci i) (\<lambda>w. set_width h ci i (w - 1)) else ret h)
       else
         bnd (get_width h ci i) (\<lambda>w.
         bnd (get_width h n i) (\<lambda>nw.
         bnd (set_width h ci i (w + (nw - 1))) (\<lambda>h1.
         bnd (get_forward h1 n i) (\<lambda>nf. set_forward h1 ci i nf))))))"

text \<open>One round of the loop that lowers the level after a delete; a round whose
  condition fails changes nothing, and so does every round after it.\<close>

definition shrink_step :: "nat \<Rightarrow> heap \<times> SkipList \<Rightarrow> (heap \<times> SkipList) res" where
  "shrink_step k st =
     (case st of (h, sl) \<Rightarrow>
        if level sl > 1 then
          bnd (get_forward h (Some (head sl)) (level sl - 1)) (\<lambda>f.
            if f = None then
              bnd (set_width h (Some (head sl)) (level sl) 0) (\<lambda>h'. ret (h', sl\<lparr>level := level sl - 1\<rparr>))
            else ret (h, sl))
        else ret (h, sl))"

definition delete1 :: "heap \<Rightarrow> SkipList \<Rightarrow> Entry \<Rightarrow> (heap \<times> SkipList \<times> Entry option) res" where
  "delete1 h sl e =
     bnd (search h sl e True) (\<lambda>(n, pos, sl1).
     bnd (if n = None then ret True else bnd (node_Compare h n e) (\<lambda>c. ret (c \<noteq> 0))) (\<lambda>miss.
       if miss then ret (h, sl1, None)
       else
         let sl2 = sl1\<lparr>num := num sl1 - 1\<rparr>
         in bnd (for_levels (unlink_step sl2 n) [0..<Suc (level sl2)] h) (\<lambda>h1.
            bnd (for_levels shrink_step [0..<level sl2] (h1, sl2)) (\<lambda>(h2, sl3).
            bnd (deref h2 n) (\<lambda>nd. ret (h2, sl3, entry nd))))))"

fun Delete :: "heap \<Rightarrow> SkipList \<Rightarrow> Entry list \<Rightarrow> (heap \<times> SkipList \<times> Entry option list) res" where
  "Delete h sl [] = ret (h, sl, [])"
| "Delete h sl (e # es) =
     bnd (delete1 h sl e) (\<lambda>(h1, sl1, r).
     bnd (Delete h1 sl1 es) (\<lambda>(h2, sl2, rs). ret (h2, sl2, r # rs)))"

subsection \<open>splitAt and SplitAt\<close>

text \<open>The body of the loop of \<^verbatim>\<open>splitAt\<close>, for one level \<open>i \<le> level\<close>; \<open>rh\<close> is
  the head of the right list.\<close>

definition split_step :: "SkipList \<Rightarrow> addr \<Rightarrow> u64 \<Rightarrow> nat \<Rightarrow> heap \<Rightarrow> heap res" where
  "split_step sl rh index i h =
     bnd (at (cache sl) i) (\<lambda>ci.
     bnd (get_forward h ci i) (\<lambda>f.
     bnd (set_forward h (Some rh) i f) (\<lambda>h1.
     bnd (get_width h1 ci i) (\<lambda>w.
     bnd (if w \<noteq> 0 then bnd (at (posCache sl) i) (\<lambda>pc. set_width h1 (Some rh) i (w - (index - pc)))
          else ret h1) (\<lambda>h2.
     bnd (set_width h2 ci i 0) (\<lambda>h3. set_forward h3 ci i None))))))"

definition splitAt :: "heap \<Rightarrow> SkipList \<Rightarrow> u64 \<Rightarrow> (heap \<times> SkipList \<times> SkipList) res" where
  "splitAt h sl index =
     (case newNode h None (maxLevel sl) of (h0, rh) \<Rightarrow>
        let right = \<lparr>maxLevel = maxLevel sl, level = level sl, head = rh, num = 0,
                     cache = replicate (maxLevel sl) None, posCache = replicate (maxLevel sl) 0\<rparr>
        in bnd (searchByPosition h0 sl index True) (\<lambda>(n, pos, sl1).
           bnd (for_levels (split_step sl1 rh index) [0..<Suc (level sl1)] h0) (\<lambda>h1.
             let right1 = right\<lparr>num := num sl1 - index\<rparr>;
                 sl2 = sl1\<lparr>num := num sl1 - num right1\<rparr>
             in bnd (resetMaxLevel h1 sl2) (\<lambda>left.
                bnd (resetMaxLevel h1 right1) (\<lambda>right2. ret (h1, left, right2))))))"

definition SplitAt :: "heap \<Rightarrow> SkipList \<Rightarrow> u64 \<Rightarrow> (heap \<times> SkipList \<times> SkipList option) res" where
  "SplitAt h sl index =
     (let index' = index + 1
      in if index' \<ge> num sl then ret (h, sl, None)
         else bnd (splitAt h sl index') (\<lambda>(h', left, right). ret (h', left, Some right)))"

subsection \<open>Sequences of operations\<close>

text \<open>\<open>draws_for lvl\<close> is a random source under which \<^verbatim>\<open>generateLevel\<close> returns
  \<open>lvl\<close> (when \<open>lvl\<close> is within its bound): the first \<open>lvl - 1\<close> draws are below
  \<^verbatim>\<open>p\<close>.\<close>

definition draws_for :: "nat \<Rightarrow> nat \<Rightarrow> bool" where
  "draws_for lvl k = (lvl \<le> Suc k)"

datatype op =
  OpInsert "nat \<Rightarrow> bool" Entry
| OpInsertAtPosition "nat \<Rightarrow> bool" u64 Entry
| OpDelete Entry

definition apply_op :: "op \<Rightarrow> heap \<times> SkipList \<Rightarrow> (heap \<times> SkipList) res" where
  "apply_op x st =
     (case st of (h, sl) \<Rightarrow>
        (case x of
           OpInsert draws e \<Rightarrow> bnd (insert1 draws h sl e) (\<lambda>(h', sl', r). ret (h', sl'))
         | OpInsertAtPosition draws p e \<Rightarrow> InsertAtPosition draws h sl p e
         | OpDelete e \<Rightarrow> bnd (delete1 h sl e) (\<lambda>(h', sl', r). ret (h', sl'))))"

fun run :: "op list \<Rightarrow> heap \<times> SkipList \<Rightarrow> (heap \<times> SkipList) res" where
  "run [] st = ret st"
| "run (x # xs) st = bnd (apply_op x st) (run xs)"


section \<open>The abstract view of a store\<close>

text \<open>
  The invariants are stated over the sequence \<open>ns\<close> of the nodes of a list in level-0
  order (the head is not one of them).  A node is tall at level \<open>j\<close> when it has a forward
  pointer at that level.  \<open>nxt h j R\<close> finds the first node of \<open>R\<close> that is tall at level
  \<open>j\<close>, with its distance; \<open>link h j x R\<close> says that the level-\<open>j\<close> pointer of \<open>x\<close>,
  followed in level-0 order by \<open>R\<close>, points to that node and that its width is that
  distance (nil when there is none; the width is then not constrained); \<open>links\<close> says so for
  every tall node of a sequence.
\<close>

definition height :: "heap \<Rightarrow> addr \<Rightarrow> nat" where
  "height h a = length (forward (cells h a))"

definition fwd :: "heap \<Rightarrow> addr \<Rightarrow> nat \<Rightarrow> addr option" where
  "fwd h a j = forward (cells h a) ! j"

definition wid :: "heap \<Rightarrow> addr \<Rightarrow> nat \<Rightarrow> u64" where
  "wid h a j = widths (cells h a) ! j"

definition key_of :: "heap \<Rightarrow> addr \<Rightarrow> int" where
  "key_of h a = (case entry (cells h a) of None \<Rightarrow> 0 | Some e \<Rightarrow> fst e)"

definition upd_fwd :: "heap \<Rightarrow> addr \<Rightarrow> nat \<Rightarrow> addr option \<Rightarrow> heap" where
  "upd_fwd h a i v = h\<lparr>cells := (cells h)(a := (cells h a)\<lparr>forward := (forward (cells h a))[i := v]\<rparr>)\<rparr>"

definition upd_wid :: "heap \<Rightarrow> addr \<Rightarrow> nat \<Rightarrow> u64 \<Rightarrow> heap" where
  "upd_wid h a i v = h\<lparr>cells := (cells h)(a := (cells h a)\<lparr>widths := (widths (cells h a))[i := v]\<rparr>)\<rparr>"

fun nxt :: "heap \<Rightarrow> nat \<Rightarrow> addr list \<Rightarrow> (nat \<times> addr) option" where
  "nxt h j [] = None"
| "nxt h j (a # R) =
     (if j < height h a then Some (1, a) else map_option (\<lambda>(k, y). (Suc k, y)) (nxt h j R))"

definition link :: "heap \<Rightarrow> nat \<Rightarrow> addr \<Rightarrow> addr list \<Rightarrow> bool" where
  "link h j x R =
     (case nxt h j R of None \<Rightarrow> fwd h x j = None
      | Some (k, y) \<Rightarrow> fwd h x j = Some y \<and> wid h x j = of_nat k)"

fun links :: "heap \<Rightarrow> nat \<Rightarrow> addr list \<Rightarrow> addr list \<Rightarrow> bool" where
  "links h j [] T = True"
| "links h j (x # R) T = ((j < height h x \<longrightarrow> link h j x (R @ T)) \<and> links h j R T)"

definition lastj :: "heap \<Rightarrow> nat \<Rightarrow> addr \<Rightarrow> addr list \<Rightarrow> addr" where
  "lastj h j x A = (case find (\<lambda>a. j < height h a) (rev A) of None \<Rightarrow> x | Some y \<Rightarrow> y)"

definition gapj :: "heap \<Rightarrow> nat \<Rightarrow> addr list \<Rightarrow> nat" where
  "gapj h j A = length (takeWhile (\<lambda>a. \<not> j < height h a) (rev A))"

(* ---------- monad ---------- *)

definition sl_inv :: "heap \<Rightarrow> SkipList \<Rightarrow> addr list \<Rightarrow> bool" where
  "sl_inv h sl ns \<longleftrightarrow>
     2 \<le> maxLevel sl \<and> maxLevel sl \<le> 255 \<and> level sl < maxLevel sl \<and>
     length (cache sl) = maxLevel sl \<and> length (posCache sl) = maxLevel sl \<and>
     distinct (head sl # ns) \<and>
     (\<forall>a \<in> set (head sl # ns). a < alloc h \<and> length (widths (cells h a)) = height h a) \<and>
     height h (head sl) = maxLevel sl \<and>
     (\<forall>a \<in> set ns. 1 \<le> height h a \<and> height h a \<le> level sl \<and> entry (cells h a) \<noteq> None) \<and>
     (\<forall>j < maxLevel sl. links h j (head sl # ns) []) \<and>
     num sl = of_nat (length ns) \<and> length ns < 2 ^ 64 \<and>
     (\<forall>j. level sl \<le> j \<longrightarrow> j < maxLevel sl \<longrightarrow> posCache sl ! j = 0) \<and>
     (ns = [] \<longrightarrow> (\<forall>j < maxLevel sl. posCache sl ! j = 0) \<and>
                  (\<forall>j < level sl. cache sl ! j = Some (head sl)))"

definition trail_ok :: "heap \<Rightarrow> SkipList \<Rightarrow> addr list \<Rightarrow> bool" where
  "trail_ok h sl A \<longleftrightarrow>
     (\<forall>j \<le> level sl. cache sl ! j = Some (lastj h j (head sl) A) \<and>
        posCache sl ! j + of_nat (gapj h j A) = of_nat (length A))"

definition search_inv :: "heap \<Rightarrow> SkipList \<Rightarrow> addr list \<Rightarrow> Entry \<Rightarrow> nat \<Rightarrow> addr \<times> u64 \<times> trail \<Rightarrow> bool" where
  "search_inv h sl ns e m st =
     (case st of (x, pos, (c, pc)) \<Rightarrow>
        \<exists>A R. ns = A @ R \<and> x = last (head sl # A) \<and> pos = of_nat (length A) \<and>
          (A \<noteq> [] \<longrightarrow> m < height h (last A) \<and> key_of h (last A) < fst e) \<and>
          length c = maxLevel sl \<and> length pc = maxLevel sl \<and>
          (\<forall>j. m \<le> j \<and> j \<le> level sl \<longrightarrow>
             c ! j = Some (lastj h j (head sl) A) \<and>
             pc ! j + of_nat (gapj h j A) = of_nat (length A) \<and>
             (case nxt h j R of None \<Rightarrow> True | Some (d, y) \<Rightarrow> fst e \<le> key_of h y)) \<and>
          (\<forall>j. j < m \<or> level sl < j \<longrightarrow> c ! j = cache sl ! j \<and> pc ! j = posCache sl ! j))"

definition same_shape :: "heap \<Rightarrow> heap \<Rightarrow> bool" where
  "same_shape h h' \<longleftrightarrow>
     alloc h' = alloc h \<and>
     (\<forall>a. height h' a = height h a \<and>
          length (widths (cells h' a)) = length (widths (cells h a)) \<and>
          entry (cells h' a) = entry (cells h a))"

definition relink_inv :: "nat \<Rightarrow> heap \<Rightarrow> addr list \<Rightarrow> addr list \<Rightarrow> nat \<Rightarrow> heap \<Rightarrow> bool" where
  "relink_inv ml h0 old new k h' \<longleftrightarrow>
     same_shape h0 h' \<and> (\<forall>j < ml. if j < k then links h' j new [] else links h' j old [])"

definition ordered :: "heap \<Rightarrow> addr list \<Rightarrow> bool" where
  "ordered h ns = sorted_wrt (<) (map (key_of h) ns)"

partial_function (option) walk0 :: "heap \<Rightarrow> addr option \<Rightarrow> addr list option" where
  "walk0 h p =
     (case p of None \<Rightarrow> Some []
      | Some a \<Rightarrow>
          (case forward (cells h a) of [] \<Rightarrow> None
           | f # _ \<Rightarrow> Option.bind (walk0 h f) (\<lambda>r. Some (a # r))))"

declare walk0.simps [code]

definition level0 :: "heap \<Rightarrow> SkipList \<Rightarrow> addr list option" where
  "level0 h sl = (case forward (cells h (head sl)) of [] \<Rightarrow> None | f # _ \<Rightarrow> walk0 h f)"

definition by_key :: "op \<Rightarrow> bool" where
  "by_key x = (case x of OpInsert d e \<Rightarrow> True | OpInsertAtPosition d p e \<Rightarrow> False | OpDelete e \<Rightarrow> True)"

section \<open>Basic facts\<close>

lemma bnd_ret [simp]: "bnd (ret x) f = f x"
  by (simp add: bnd_def ret_def)

lemma bnd_panic [simp]: "bnd (panic e) f = panic e"
  by (simp add: bnd_def panic_def)

lemma generateLevel_from_ge: "lvl \<le> generateLevel_from bound draws lvl"
proof (induction bound draws lvl rule: generateLevel_from.induct)
  case (1 bound draws lvl)
  show ?case
  proof (cases "lvl < bound \<and> \<not> draws (lvl - 1)")
    case True
    then have "Suc lvl \<le> generateLevel_from bound draws (Suc lvl)" using 1 by simp
    then show ?thesis using True by (subst generateLevel_from.simps) simp
  next
    case False
    then show ?thesis by (subst generateLevel_from.simps) auto
  qed
qed

lemma bnd_eq_ret: "bnd m f = ret y \<longleftrightarrow> (\<exists>x. m = ret x \<and> f x = ret y)"
  by (auto simp: bnd_def ret_def split: option.splits sum.splits)

lemma ret_inject [simp]: "ret x = ret y \<longleftrightarrow> x = y"
  by (simp add: ret_def)

lemma ret_neq_panic [simp]: "ret x \<noteq> panic e" "panic e \<noteq> ret x"
  by (simp_all add: ret_def panic_def)

(* ---------- primitives ---------- *)

lemma get_forward_ret: "j < height h a \<Longrightarrow> get_forward h (Some a) j = ret (fwd h a j)"
  by (simp add: get_forward_def deref_def at_def height_def fwd_def)

lemma get_width_ret:
  "j < length (widths (cells h a)) \<Longrightarrow> get_width h (Some a) j = ret (wid h a j)"
  by (simp add: get_width_def deref_def at_def wid_def)

lemma set_forward_ret: "j < height h a \<Longrightarrow> set_forward h (Some a) j v = ret (upd_fwd h a j v)"
  by (simp add: set_forward_def put_def height_def upd_fwd_def)

lemma set_width_ret:
  "j < length (widths (cells h a)) \<Longrightarrow> set_width h (Some a) j v = ret (upd_wid h a j v)"
  by (simp add: set_width_def put_def upd_wid_def)

lemma height_upd_fwd [simp]: "height (upd_fwd h a i v) b = height h b"
  by (simp add: height_def upd_fwd_def)

lemma height_upd_wid [simp]: "height (upd_wid h a i v) b = height h b"
  by (simp add: height_def upd_wid_def)

lemma wlen_upd_fwd [simp]: "length (widths (cells (upd_fwd h a i v) b)) = length (widths (cells h b))"
  by (simp add: upd_fwd_def)

lemma wlen_upd_wid [simp]: "length (widths (cells (upd_wid h a i v) b)) = length (widths (cells h b))"
  by (simp add: upd_wid_def)

lemma entry_upd_fwd [simp]: "entry (cells (upd_fwd h a i v) b) = entry (cells h b)"
  by (simp add: upd_fwd_def)

lemma entry_upd_wid [simp]: "entry (cells (upd_wid h a i v) b) = entry (cells h b)"
  by (simp add: upd_wid_def)

lemma alloc_upd_fwd [simp]: "alloc (upd_fwd h a i v) = alloc h"
  by (simp add: upd_fwd_def)

lemma alloc_upd_wid [simp]: "alloc (upd_wid h a i v) = alloc h"
  by (simp add: upd_wid_def)

lemma key_of_upd_fwd [simp]: "key_of (upd_fwd h a i v) b = key_of h b"
  by (simp add: key_of_def)

lemma key_of_upd_wid [simp]: "key_of (upd_wid h a i v) b = key_of h b"
  by (simp add: key_of_def)

lemma fwd_upd_fwd:
  "i < height h a \<Longrightarrow> fwd (upd_fwd h a i v) b j = (if b = a \<and> j = i then v else fwd h b j)"
  by (auto simp: fwd_def upd_fwd_def height_def nth_list_update)

lemma fwd_upd_wid [simp]: "fwd (upd_wid h a i v) b j = fwd h b j"
  by (simp add: fwd_def upd_wid_def)

lemma wid_upd_fwd [simp]: "wid (upd_fwd h a i v) b j = wid h b j"
  by (simp add: wid_def upd_fwd_def)

lemma wid_upd_wid:
  "i < length (widths (cells h a)) \<Longrightarrow>
     wid (upd_wid h a i v) b j = (if b = a \<and> j = i then v else wid h b j)"
  by (auto simp: wid_def upd_wid_def nth_list_update)

(* ---------- nxt ---------- *)

lemma nxt_cong: "(\<forall>a \<in> set R. height h' a = height h a) \<Longrightarrow> nxt h' j R = nxt h j R"
  by (induction R) auto

lemma nxt_append:
  "nxt h j (S @ T) =
     (case nxt h j S of Some r \<Rightarrow> Some r
      | None \<Rightarrow> map_option (\<lambda>(k, y). (length S + k, y)) (nxt h j T))"
proof (induction S)
  case Nil
  show ?case by (cases "nxt h j T") auto
next
  case (Cons a S)
  show ?case
    by (cases "nxt h j S"; cases "nxt h j T") (auto simp: Cons)
qed

lemma nxt_None_iff: "nxt h j R = None \<longleftrightarrow> (\<forall>a \<in> set R. \<not> j < height h a)"
  by (induction R) auto

lemma nxt_Some_split:
  "nxt h j R = Some (d, y) \<Longrightarrow>
     \<exists>L R2. R = L @ y # R2 \<and> d = Suc (length L) \<and> j < height h y \<and> (\<forall>a \<in> set L. \<not> j < height h a)"
proof (induction R arbitrary: d)
  case Nil
  then show ?case by simp
next
  case (Cons a R)
  show ?case
  proof (cases "j < height h a")
    case True
    with Cons.prems have "d = 1" "y = a" by auto
    with True show ?thesis by (intro exI [of _ "[]"] exI [of _ R]) auto
  next
    case False
    with Cons.prems obtain d' where d': "nxt h j R = Some (d', y)" "d = Suc d'"
      by (auto split: option.splits)
    from Cons.IH [OF d'(1)] obtain L R2 where
      "R = L @ y # R2" "d' = Suc (length L)" "j < height h y" "\<forall>a \<in> set L. \<not> j < height h a"
      by blast
    with False d'(2) show ?thesis
      by (intro exI [of _ "a # L"] exI [of _ R2]) auto
  qed
qed

lemma nxt_low_prefix:
  "(\<forall>a \<in> set S. \<not> j < height h a) \<Longrightarrow>
     nxt h j (S @ T) = map_option (\<lambda>(k, y). (length S + k, y)) (nxt h j T)"
  using nxt_None_iff [of h j S] by (simp add: nxt_append)

lemma nxt_tall_cut: "j < height h x \<Longrightarrow> nxt h j (P @ x # T) = nxt h j (P @ [x])"
  by (simp add: nxt_append split: option.splits)

(* ---------- links ---------- *)

lemma links_append: "links h j (P @ Q) T = (links h j P (Q @ T) \<and> links h j Q T)"
  by (induction P) auto

lemma links_low: "(\<forall>a \<in> set S. \<not> j < height h a) \<Longrightarrow> links h j S T"
  by (induction S) auto

lemma links_tail_tall: "j < height h x \<Longrightarrow> links h j P (x # T) = links h j P [x]"
proof (induction P)
  case Nil
  show ?case by simp
next
  case (Cons a P)
  have "nxt h j (P @ x # T) = nxt h j (P @ [x])"
    using Cons.prems by (rule nxt_tall_cut)
  then have "link h j a (P @ x # T) = link h j a (P @ [x])"
    by (simp add: link_def)
  with Cons show ?case by simp
qed

lemma link_cong:
  "\<lbrakk>\<forall>a \<in> set R. height h' a = height h a; fwd h' x j = fwd h x j; wid h' x j = wid h x j\<rbrakk>
   \<Longrightarrow> link h' j x R = link h j x R"
  using nxt_cong [of R h' h j] by (auto simp: link_def split: option.splits)

lemma links_cong:
  "\<lbrakk>\<forall>a \<in> set P \<union> set T. height h' a = height h a;
    \<forall>a \<in> set P. j < height h a \<longrightarrow> fwd h' a j = fwd h a j \<and> wid h' a j = wid h a j\<rbrakk>
   \<Longrightarrow> links h' j P T = links h j P T"
proof (induction P)
  case Nil
  show ?case by simp
next
  case (Cons a P)
  have IH: "links h' j P T = links h j P T"
    using Cons.prems by (intro Cons.IH) auto
  have "j < height h a \<Longrightarrow> link h' j a (P @ T) = link h j a (P @ T)"
    using Cons.prems by (intro link_cong) auto
  moreover have "height h' a = height h a" using Cons.prems by simp
  ultimately show ?case using IH by auto
qed

(* ---------- lastj / gapj ---------- *)

lemma lastj_Nil [simp]: "lastj h j x [] = x"
  by (simp add: lastj_def)

lemma gapj_Nil [simp]: "gapj h j [] = 0"
  by (simp add: gapj_def)

lemma lastj_snoc [simp]:
  "lastj h j x (A @ [a]) = (if j < height h a then a else lastj h j x A)"
  by (simp add: lastj_def)

lemma gapj_snoc [simp]:
  "gapj h j (A @ [a]) = (if j < height h a then 0 else Suc (gapj h j A))"
  by (simp add: gapj_def)

lemma lastj_low: "(\<forall>a \<in> set S. \<not> j < height h a) \<Longrightarrow> lastj h j x (A @ S) = lastj h j x A"
  by (induction S rule: rev_induct) (auto simp flip: append_assoc)

lemma gapj_low: "(\<forall>a \<in> set S. \<not> j < height h a) \<Longrightarrow> gapj h j (A @ S) = gapj h j A + length S"
  by (induction S rule: rev_induct) (auto simp flip: append_assoc)

lemma gapj_le: "gapj h j A \<le> length A"
  by (simp add: gapj_def) (metis length_rev length_takeWhile_le)

lemma lastj_split:
  "\<exists>P S. x # A = P @ lastj h j x A # S \<and> (\<forall>a \<in> set S. \<not> j < height h a) \<and> length S = gapj h j A"
proof (induction A rule: rev_induct)
  case Nil
  show ?case by (intro exI [of _ "[]"]) simp
next
  case (snoc a A)
  then obtain P S where PS: "x # A = P @ lastj h j x A # S" "\<forall>a \<in> set S. \<not> j < height h a"
      "length S = gapj h j A"
    by blast
  show ?case
  proof (cases "j < height h a")
    case True
    then show ?thesis
      by (intro exI [of _ "x # A"] exI [of _ "[]"]) simp
  next
    case False
    have "x # A @ [a] = P @ lastj h j x A # (S @ [a])" using PS(1) by simp
    with False PS show ?thesis
      by (intro exI [of _ P] exI [of _ "S @ [a]"]) simp
  qed
qed

lemma lastj_in: "lastj h j x A \<in> set (x # A)"
  using lastj_split [of x A h j] by (metis in_set_conv_decomp)

lemma lastj_tall: "j < height h x \<Longrightarrow> j < height h (lastj h j x A)"
  by (induction A rule: rev_induct) auto

lemma lastj_cong: "(\<forall>a \<in> set A. height h' a = height h a) \<Longrightarrow> lastj h' j x A = lastj h j x A"
  by (induction A rule: rev_induct) auto

lemma gapj_cong: "(\<forall>a \<in> set A. height h' a = height h a) \<Longrightarrow> gapj h' j A = gapj h j A"
  by (induction A rule: rev_induct) auto

lemma node_Compare_ret:
  "entry (cells h a) \<noteq> None \<Longrightarrow>
     node_Compare h (Some a) e = ret (if key_of h a < fst e then - 1 else if key_of h a = fst e then 0 else 1)"
  by (auto simp: node_Compare_def deref_def key_of_def Compare_def)

lemma advance_stop_nil:
  assumes "j < height h x" "fwd h x j = None"
  shows "advance h j e x pos = ret (x, pos)"
proof -
  have 1: "get_forward h (Some x) j = Some (Inr None)"
    using assms by (simp add: get_forward_ret ret_def)
  show ?thesis by (subst advance.simps) (simp add: 1 ret_def)
qed

lemma advance_stop_ge:
  assumes "j < height h x" "fwd h x j = Some y" "entry (cells h y) \<noteq> None" "fst e \<le> key_of h y"
  shows "advance h j e x pos = ret (x, pos)"
proof -
  have 1: "get_forward h (Some x) j = Some (Inr (Some y))"
    using assms by (simp add: get_forward_ret ret_def)
  have 2: "node_Compare h (Some y) e = Some (Inr (if key_of h y = fst e then 0 else 1))"
    using node_Compare_ret [OF assms(3), of e] assms(4) by (simp add: ret_def)
  show ?thesis by (subst advance.simps) (simp add: 1 2 ret_def)
qed

lemma advance_step:
  assumes "j < height h x" "length (widths (cells h x)) = height h x" "fwd h x j = Some y"
    "entry (cells h y) \<noteq> None" "key_of h y < fst e"
  shows "advance h j e x pos = advance h j e y (pos + wid h x j)"
proof -
  have 1: "get_forward h (Some x) j = Some (Inr (Some y))"
    using assms by (simp add: get_forward_ret ret_def)
  have 2: "node_Compare h (Some y) e = Some (Inr (- 1))"
    using node_Compare_ret [OF assms(4), of e] assms(5) by (simp add: ret_def)
  have 3: "get_width h (Some x) j = Some (Inr (wid h x j))"
    using assms by (simp add: get_width_ret ret_def)
  show ?thesis by (subst advance.simps) (simp add: 1 2 3)
qed

lemma advance_chain:
  assumes "links h j (x # R) []" "j < height h x" "length (widths (cells h x)) = height h x"
    "\<forall>a \<in> set R. length (widths (cells h a)) = height h a \<and> entry (cells h a) \<noteq> None"
  shows "\<exists>C R'. R = C @ R' \<and> advance h j e x pos = ret (last (x # C), pos + of_nat (length C)) \<and>
       (C \<noteq> [] \<longrightarrow> j < height h (last C) \<and> key_of h (last C) < fst e) \<and>
       (\<forall>a \<in> set C. j < height h a \<longrightarrow> key_of h a < fst e) \<and>
       (case nxt h j R' of None \<Rightarrow> True | Some (d, y) \<Rightarrow> fst e \<le> key_of h y)"
  using assms
proof (induction "length R" arbitrary: R x pos rule: less_induct)
  case less
  have lk: "link h j x R" using less.prems(1,2) by simp
  show ?case
  proof (cases "nxt h j R")
    case None
    then have "fwd h x j = None" using lk by (simp add: link_def)
    then have "advance h j e x pos = ret (x, pos)"
      using less.prems(2) by (rule advance_stop_nil [rotated])
    then show ?thesis using None
      by (intro exI [of _ "[]"] exI [of _ R]) simp
  next
    case (Some r)
    obtain d y where r: "r = (d, y)" by (cases r)
    from nxt_Some_split [OF Some [unfolded r]] obtain L R2 where
      R: "R = L @ y # R2" and d: "d = Suc (length L)" and ty: "j < height h y"
      and low: "\<forall>a \<in> set L. \<not> j < height h a"
      by blast
    have f: "fwd h x j = Some y" and w: "wid h x j = of_nat d"
      using lk Some r by (simp_all add: link_def)
    have ey: "entry (cells h y) \<noteq> None" and wy: "length (widths (cells h y)) = height h y"
      using less.prems(4) R by auto
    show ?thesis
    proof (cases "key_of h y < fst e")
      case False
      then have "advance h j e x pos = ret (x, pos)"
        using advance_stop_ge [OF less.prems(2) f ey] by simp
      then show ?thesis using Some r False
        by (intro exI [of _ "[]"] exI [of _ R]) simp
    next
      case True
      have st: "advance h j e x pos = advance h j e y (pos + of_nat d)"
        using advance_step [OF less.prems(2,3) f ey True] w by simp
      have l2: "links h j (y # R2) []"
        using less.prems(1) R by (simp add: links_append)
      have len: "length R2 < length R" using R by simp
      have n2: "\<forall>a \<in> set R2. length (widths (cells h a)) = height h a \<and> entry (cells h a) \<noteq> None"
        using less.prems(4) R by auto
      from less.hyps [OF len l2 ty wy n2, of "pos + of_nat d"] obtain C2 R' where
        c2: "R2 = C2 @ R'"
        "advance h j e y (pos + of_nat d) = ret (last (y # C2), pos + of_nat d + of_nat (length C2))"
        "C2 \<noteq> [] \<longrightarrow> j < height h (last C2) \<and> key_of h (last C2) < fst e"
        "\<forall>a \<in> set C2. j < height h a \<longrightarrow> key_of h a < fst e"
        "case nxt h j R' of None \<Rightarrow> True | Some (d, y) \<Rightarrow> fst e \<le> key_of h y"
        by blast
      let ?C = "L @ y # C2"
      have "R = ?C @ R'" using R c2(1) by simp
      moreover have "advance h j e x pos = ret (last (x # ?C), pos + of_nat (length ?C))"
        using st c2(2) d by (simp add: add.assoc)
      moreover have "j < height h (last ?C) \<and> key_of h (last ?C) < fst e"
        using c2(3) ty True by simp
      moreover have "\<forall>a \<in> set ?C. j < height h a \<longrightarrow> key_of h a < fst e"
        using c2(4) low True by auto
      ultimately show ?thesis using c2(5)
        by (intro exI [of _ ?C] exI [of _ R']) simp
    qed
  qed
qed

lemma for_levels_down:
  assumes "Q (Suc n) s"
    and "\<And>k s. k \<le> n \<Longrightarrow> Q (Suc k) s \<Longrightarrow> \<exists>s'. body k s = ret s' \<and> Q k s'"
  shows "\<exists>s'. for_levels body (rev [0..<Suc n]) s = ret s' \<and> Q 0 s'"
  using assms
proof (induction n arbitrary: s)
  case 0
  from 0(2) [of 0 s] 0(1) obtain s' where "body 0 s = ret s'" "Q 0 s'" by auto
  then show ?case by simp
next
  case (Suc n)
  from Suc.prems(2) [of "Suc n" s] Suc.prems(1) obtain s1 where
    s1: "body (Suc n) s = ret s1" "Q (Suc n) s1" by auto
  have "\<exists>s'. for_levels body (rev [0..<Suc n]) s1 = ret s' \<and> Q 0 s'"
    using s1(2) Suc.prems(2) by (intro Suc.IH) auto
  then show ?case using s1(1) by simp
qed

lemma for_levels_up:
  assumes "Q a s" "a \<le> b"
    and "\<And>k s. a \<le> k \<Longrightarrow> k < b \<Longrightarrow> Q k s \<Longrightarrow> \<exists>s'. body k s = ret s' \<and> Q (Suc k) s'"
  shows "\<exists>s'. for_levels body [a..<b] s = ret s' \<and> Q b s'"
  using assms
proof (induction "b - a" arbitrary: a s)
  case 0
  then show ?case by simp
next
  case (Suc d)
  then have ab: "a < b" by simp
  from Suc.prems(3) [of a s] Suc.prems(1) ab obtain s1 where
    s1: "body a s = ret s1" "Q (Suc a) s1" by auto
  have "\<exists>s'. for_levels body [Suc a..<b] s1 = ret s' \<and> Q b s'"
    using Suc.hyps(2) s1(2) ab Suc.prems(3) by (intro Suc.hyps(1)) auto
  then show ?case using s1(1) ab by (simp add: upt_conv_Cons)
qed

text \<open>The partial-correctness form: whatever the loop returns satisfies the invariant.\<close>

lemma for_levels_up_partial:
  assumes "for_levels body [a..<b] s = ret s'" "Q a s" "a \<le> b"
    and "\<And>k s s'. a \<le> k \<Longrightarrow> k < b \<Longrightarrow> Q k s \<Longrightarrow> body k s = ret s' \<Longrightarrow> Q (Suc k) s'"
  shows "Q b s'"
  using assms
proof (induction "b - a" arbitrary: a s)
  case 0
  then show ?case by simp
next
  case (Suc d)
  then have ab: "a < b" by simp
  from Suc.prems(1) ab obtain s1 where
    s1: "body a s = ret s1" "for_levels body [Suc a..<b] s1 = ret s'"
    by (auto simp: upt_conv_Cons bnd_eq_ret)
  have "Q (Suc a) s1" using Suc.prems(4) [of a s s1] Suc.prems(2) ab s1(1) by simp
  then show ?case
    using Suc.hyps(2) s1(2) ab Suc.prems(4) by (intro Suc.hyps(1) [of "Suc a" s1]) auto
qed

lemma for_levels_down_partial:
  assumes "for_levels body (rev [0..<Suc n]) s = ret s'" "Q (Suc n) s"
    and "\<And>k s s'. k \<le> n \<Longrightarrow> Q (Suc k) s \<Longrightarrow> body k s = ret s' \<Longrightarrow> Q k s'"
  shows "Q 0 s'"
  using assms
proof (induction n arbitrary: s)
  case 0
  then show ?case by (auto simp: bnd_eq_ret)
next
  case (Suc n)
  from Suc.prems(1) obtain s1 where
    s1: "body (Suc n) s = ret s1" "for_levels body (rev [0..<Suc n]) s1 = ret s'"
    by (auto simp: bnd_eq_ret)
  have "Q (Suc n) s1" using Suc.prems(3) [of "Suc n" s s1] Suc.prems(2) s1(1) by simp
  then show ?case using s1(2) Suc.prems(3) by (intro Suc.IH [of s1]) auto
qed

lemma record_trail_ret:
  "k < length c \<Longrightarrow> k < length pc \<Longrightarrow>
     record_trail True k n pos (c, pc) = ret (c[k := n], pc[k := pos])"
  by (simp add: record_trail_def put_def)

lemma last_cons_append: "last (x # A @ C) = last (last (x # A) # C)"
  by (cases C) auto

lemma lastj_last_tall:
  "A \<noteq> [] \<Longrightarrow> j < height h (last A) \<Longrightarrow> lastj h j x A = last A \<and> gapj h j A = 0"
  by (cases A rule: rev_cases) auto

lemma no_tall_in_walk:
  assumes b: "case nxt h j (C @ R') of None \<Rightarrow> True | Some (d, y) \<Rightarrow> (fst e :: int) \<le> key_of h y"
    and c: "\<forall>a \<in> set C. k < height h a \<longrightarrow> key_of h a < fst e" and kj: "k \<le> j"
  shows "\<forall>a \<in> set C. \<not> j < height h a"
proof (rule ccontr)
  assume "\<not> ?thesis"
  then have "nxt h j C \<noteq> None" by (simp add: nxt_None_iff)
  then obtain d y where dy: "nxt h j C = Some (d, y)" by (cases "nxt h j C") auto
  from nxt_Some_split [OF dy] have y: "y \<in> set C" "j < height h y" by auto
  have "nxt h j (C @ R') = Some (d, y)" using dy by (simp add: nxt_append)
  with b have "fst e \<le> key_of h y" by simp
  moreover have "key_of h y < fst e" using c y kj by auto
  ultimately show False by simp
qed

lemma sl_inv_tall0: "sl_inv h sl ns \<Longrightarrow> a \<in> set (head sl # ns) \<Longrightarrow> 0 < height h a"
  by (auto simp: sl_inv_def)

lemma search_step_inv:
  assumes inv: "sl_inv h sl ns" and k: "k \<le> level sl" and Q: "search_inv h sl ns e (Suc k) st"
  shows "\<exists>st'. search_step h e True k st = ret st' \<and> search_inv h sl ns e k st'"
proof -
  obtain x pos c pc where st: "st = (x, pos, (c, pc))" by (cases st) auto
  from Q [unfolded search_inv_def st] obtain A R where
    ns: "ns = A @ R" and x: "x = last (head sl # A)" and pos: "pos = of_nat (length A)"
    and la: "A \<noteq> [] \<longrightarrow> Suc k < height h (last A) \<and> key_of h (last A) < fst e"
    and lc: "length c = maxLevel sl" and lpc: "length pc = maxLevel sl"
    and prc: "\<forall>j. Suc k \<le> j \<and> j \<le> level sl \<longrightarrow>
             c ! j = Some (lastj h j (head sl) A) \<and>
             pc ! j + of_nat (gapj h j A) = of_nat (length A) \<and>
             (case nxt h j R of None \<Rightarrow> True | Some (d, y) \<Rightarrow> fst e \<le> key_of h y)"
    and todo: "\<forall>j. j < Suc k \<or> level sl < j \<longrightarrow> c ! j = cache sl ! j \<and> pc ! j = posCache sl ! j"
    by auto
  have lvl: "level sl < maxLevel sl" and hh: "height h (head sl) = maxLevel sl"
    using inv by (auto simp: sl_inv_def)
  have xin: "x \<in> set (head sl # A)" unfolding x by (rule last_in_set) simp
  have tx: "k < height h x"
  proof (cases "A = []")
    case True
    then show ?thesis using x hh lvl k by simp
  next
    case False
    then show ?thesis using la x by simp
  qed
  have wx: "length (widths (cells h x)) = height h x"
    using inv xin ns by (auto simp: sl_inv_def)
  have nR: "\<forall>a \<in> set R. length (widths (cells h a)) = height h a \<and> entry (cells h a) \<noteq> None"
    using inv ns by (auto simp: sl_inv_def)
  have "links h k (head sl # ns) []" using inv k lvl by (auto simp: sl_inv_def)
  moreover have "head sl # ns = butlast (head sl # A) @ x # R"
    unfolding x ns by (metis append_Cons append_assoc append_butlast_last_id list.distinct(1) append_Nil)
  ultimately have lx: "links h k (x # R) []"
    by (simp add: links_append)
  from advance_chain [OF lx tx wx nR, of e pos] obtain C R' where
    R: "R = C @ R'" and adv: "advance h k e x pos = ret (last (x # C), pos + of_nat (length C))"
    and lC: "C \<noteq> [] \<longrightarrow> k < height h (last C) \<and> key_of h (last C) < fst e"
    and tC: "\<forall>a \<in> set C. k < height h a \<longrightarrow> key_of h a < fst e"
    and bnd': "case nxt h k R' of None \<Rightarrow> True | Some (d, y) \<Rightarrow> fst e \<le> key_of h y"
    by blast
  let ?x' = "last (x # C)" and ?pos' = "pos + of_nat (length C)"
  let ?st' = "(?x', ?pos', (c[k := Some ?x'], pc[k := ?pos']))"
  have kml: "k < maxLevel sl" using k lvl by simp
  have step: "search_step h e True k st = ret ?st'"
    unfolding search_step_def st by (simp add: adv record_trail_ret kml lc lpc)
  have lastA': "A @ C \<noteq> [] \<longrightarrow> k < height h (last (A @ C)) \<and> key_of h (last (A @ C)) < fst e"
    using la lC by (cases "C = []") auto
  have cur: "lastj h k (head sl) (A @ C) = ?x' \<and> gapj h k (A @ C) = 0"
  proof (cases "A @ C = []")
    case True
    then show ?thesis using x by simp
  next
    case False
    with lastA' have "lastj h k (head sl) (A @ C) = last (A @ C) \<and> gapj h k (A @ C) = 0"
      by (intro lastj_last_tall) auto
    moreover have "last (A @ C) = ?x'" using False x by (cases "C = []") auto
    ultimately show ?thesis by simp
  qed
  have "search_inv h sl ns e k ?st'"
    unfolding search_inv_def prod.case
  proof (rule exI [of _ "A @ C"], rule exI [of _ R'], intro conjI allI impI)
    show "ns = (A @ C) @ R'" using ns R by simp
    show "?x' = last (head sl # A @ C)" unfolding x by (simp add: last_cons_append)
    show "?pos' = of_nat (length (A @ C))" using pos by simp
    show "k < height h (last (A @ C))" if "A @ C \<noteq> []" using that lastA' by simp
    show "key_of h (last (A @ C)) < fst e" if "A @ C \<noteq> []" using that lastA' by simp
    show "length (c[k := Some ?x']) = maxLevel sl" using lc by simp
    show "length (pc[k := ?pos']) = maxLevel sl" using lpc by simp
  next
    fix j assume j: "k \<le> j \<and> j \<le> level sl"
    show "c[k := Some ?x'] ! j = Some (lastj h j (head sl) (A @ C))"
    proof (cases "j = k")
      case True
      then show ?thesis using cur kml lc by simp
    next
      case False
      then have sj: "Suc k \<le> j \<and> j \<le> level sl" using j by simp
      have "\<forall>a \<in> set C. \<not> j < height h a"
        using prc sj R j by (intro no_tall_in_walk [where k = k and e = e and R' = R'] tC) auto
      then have "lastj h j (head sl) (A @ C) = lastj h j (head sl) A" by (rule lastj_low)
      then show ?thesis using prc sj False by simp
    qed
    show "pc[k := ?pos'] ! j + of_nat (gapj h j (A @ C)) = of_nat (length (A @ C))"
    proof (cases "j = k")
      case True
      then show ?thesis using cur kml lpc pos by simp
    next
      case False
      then have sj: "Suc k \<le> j \<and> j \<le> level sl" using j by simp
      have "\<forall>a \<in> set C. \<not> j < height h a"
        using prc sj R j by (intro no_tall_in_walk [where k = k and e = e and R' = R'] tC) auto
      then have "gapj h j (A @ C) = gapj h j A + length C" by (rule gapj_low)
      moreover have "pc ! j + of_nat (gapj h j A) = of_nat (length A)" using prc sj by simp
      ultimately show ?thesis using False by (simp add: add.assoc [symmetric])
    qed
    show "case nxt h j R' of None \<Rightarrow> True | Some (d, y) \<Rightarrow> fst e \<le> key_of h y"
    proof (cases "j = k")
      case True
      then show ?thesis using bnd' by simp
    next
      case False
      then have sj: "Suc k \<le> j \<and> j \<le> level sl" using j by simp
      have low: "\<forall>a \<in> set C. \<not> j < height h a"
        using prc sj R j by (intro no_tall_in_walk [where k = k and e = e and R' = R'] tC) auto
      have "case nxt h j (C @ R') of None \<Rightarrow> True | Some (d, y) \<Rightarrow> fst e \<le> key_of h y"
        using prc sj R by simp
      then show ?thesis
        unfolding nxt_low_prefix [OF low] by (cases "nxt h j R'") auto
    qed
  next
    fix j assume j: "j < k \<or> level sl < j"
    then have "j \<noteq> k" using k by auto
    moreover have "c ! j = cache sl ! j \<and> pc ! j = posCache sl ! j"
      using todo [rule_format, of j] j by auto
    ultimately show "c[k := Some ?x'] ! j = cache sl ! j" "pc[k := ?pos'] ! j = posCache sl ! j"
      by simp_all
  qed
  with step show ?thesis by blast
qed

lemma unat_of_nat_u64: "n < 2 ^ 64 \<Longrightarrow> unat (of_nat n :: u64) = n"
  by (simp add: unat_of_nat)

lemma of_nat_u64_inj:
  assumes "m < 2 ^ 64" "n < 2 ^ 64"
  shows "(of_nat m :: u64) = of_nat n \<longleftrightarrow> m = n"
proof
  assume "(of_nat m :: u64) = of_nat n"
  then have "unat (of_nat m :: u64) = unat (of_nat n :: u64)" by simp
  then show "m = n" using assms by (simp add: unat_of_nat_u64)
qed simp

lemma of_nat_u64_eq_0: "n < 2 ^ 64 \<Longrightarrow> (of_nat n :: u64) = 0 \<longleftrightarrow> n = 0"
  using of_nat_u64_inj [of n 0] by simp

lemma of_nat_u64_le: "m < 2 ^ 64 \<Longrightarrow> n < 2 ^ 64 \<Longrightarrow> (of_nat m :: u64) \<le> of_nat n \<longleftrightarrow> m \<le> n"
  by (simp add: word_le_nat_alt unat_of_nat_u64)

lemma nxt_level0:
  "\<forall>a \<in> set R. 0 < height h a \<Longrightarrow> nxt h 0 R = (case R of [] \<Rightarrow> None | b # _ \<Rightarrow> Some (1, b))"
  by (cases R) auto

lemma links_suffix: "links h j (P @ Q) T \<Longrightarrow> links h j Q T"
  by (simp add: links_append)

lemma links_at:
  "links h j (P @ x # R) T \<Longrightarrow> j < height h x \<Longrightarrow> link h j x (R @ T)"
  by (simp add: links_append)

lemma sl_inv_bounds:
  "sl_inv h sl ns \<Longrightarrow> 2 \<le> maxLevel sl \<and> maxLevel sl \<le> 255 \<and> level sl < maxLevel sl \<and>
     length (cache sl) = maxLevel sl \<and> length (posCache sl) = maxLevel sl \<and>
     height h (head sl) = maxLevel sl"
  by (simp add: sl_inv_def)

lemma sl_inv_distinct: "sl_inv h sl ns \<Longrightarrow> distinct (head sl # ns)"
  by (simp add: sl_inv_def)

lemma sl_inv_node:
  "sl_inv h sl ns \<Longrightarrow> a \<in> set (head sl # ns) \<Longrightarrow>
     a < alloc h \<and> length (widths (cells h a)) = height h a"
  unfolding sl_inv_def by blast

lemma sl_inv_elem:
  "sl_inv h sl ns \<Longrightarrow> a \<in> set ns \<Longrightarrow>
     1 \<le> height h a \<and> height h a \<le> level sl \<and> entry (cells h a) \<noteq> None"
  by (simp add: sl_inv_def)

lemma sl_inv_links: "sl_inv h sl ns \<Longrightarrow> j < maxLevel sl \<Longrightarrow> links h j (head sl # ns) []"
  by (simp add: sl_inv_def)

lemma sl_inv_num: "sl_inv h sl ns \<Longrightarrow> num sl = of_nat (length ns) \<and> length ns < 2 ^ 64"
  by (simp add: sl_inv_def)

lemma sl_inv_pc: "sl_inv h sl ns \<Longrightarrow> level sl \<le> j \<Longrightarrow> j < maxLevel sl \<Longrightarrow> posCache sl ! j = 0"
  by (simp add: sl_inv_def)

lemma sl_inv_empty:
  "sl_inv h sl [] \<Longrightarrow> j < maxLevel sl \<Longrightarrow>
     posCache sl ! j = 0 \<and> (j < level sl \<longrightarrow> cache sl ! j = Some (head sl))"
  by (simp add: sl_inv_def)

lemma search_post:
  assumes inv: "sl_inv h sl ns" and ne: "ns \<noteq> []"
  shows "\<exists>A B c pc. ns = A @ B \<and>
     search h sl e True =
       ret ((case B of [] \<Rightarrow> None | b # _ \<Rightarrow> Some b), of_nat (length A) + 1,
            sl\<lparr>cache := c, posCache := pc\<rparr>) \<and>
     length c = maxLevel sl \<and> length pc = maxLevel sl \<and>
     trail_ok h (sl\<lparr>cache := c, posCache := pc\<rparr>) A \<and>
     (\<forall>j. level sl < j \<longrightarrow> c ! j = cache sl ! j \<and> pc ! j = posCache sl ! j) \<and>
     (A \<noteq> [] \<longrightarrow> key_of h (last A) < fst e) \<and> (B \<noteq> [] \<longrightarrow> fst e \<le> key_of h (hd B))"
proof -
  have num: "num sl \<noteq> 0"
    using sl_inv_num [OF inv] ne by (simp add: of_nat_u64_eq_0)
  have init: "search_inv h sl ns e (Suc (level sl)) (head sl, 0, (cache sl, posCache sl))"
    unfolding search_inv_def prod.case
    apply (rule exI [of _ "[]"], rule exI [of _ ns])
    using sl_inv_bounds [OF inv] by auto
  from for_levels_down [where Q = "search_inv h sl ns e" and body = "search_step h e True",
      OF init search_step_inv [OF inv]]
  obtain st where st: "for_levels (search_step h e True) (rev [0..<Suc (level sl)])
        (head sl, 0, (cache sl, posCache sl)) = ret st" and Q: "search_inv h sl ns e 0 st"
    by blast
  obtain x pos c pc where st': "st = (x, pos, (c, pc))" by (cases st) auto
  from Q [unfolded search_inv_def st'] obtain A R where
    ns: "ns = A @ R" and x: "x = last (head sl # A)" and pos: "pos = of_nat (length A)"
    and la: "A \<noteq> [] \<longrightarrow> 0 < height h (last A) \<and> key_of h (last A) < fst e"
    and lc: "length c = maxLevel sl" and lpc: "length pc = maxLevel sl"
    and prc: "\<forall>j. 0 \<le> j \<and> j \<le> level sl \<longrightarrow>
             c ! j = Some (lastj h j (head sl) A) \<and>
             pc ! j + of_nat (gapj h j A) = of_nat (length A) \<and>
             (case nxt h j R of None \<Rightarrow> True | Some (d, y) \<Rightarrow> fst e \<le> key_of h y)"
    and todo: "\<forall>j. j < 0 \<or> level sl < j \<longrightarrow> c ! j = cache sl ! j \<and> pc ! j = posCache sl ! j"
    by auto
  have xin: "x \<in> set (head sl # A)" unfolding x by (rule last_in_set) simp
  then have tx: "0 < height h x" using sl_inv_tall0 [OF inv, of x] ns by auto
  have tR: "\<forall>a \<in> set R. 0 < height h a" using sl_inv_tall0 [OF inv] ns by auto
  have "links h 0 (head sl # ns) []" using sl_inv_links [OF inv, of 0] sl_inv_bounds [OF inv] by simp
  moreover have "head sl # ns = butlast (head sl # A) @ x # R"
    unfolding x ns by (metis append_Cons append_assoc append_butlast_last_id list.distinct(1) append_Nil)
  ultimately have "link h 0 x R" using links_at [of h 0 "butlast (head sl # A)" x R "[]"] tx by simp
  then have f: "fwd h x 0 = (case R of [] \<Rightarrow> None | b # _ \<Rightarrow> Some b)"
    unfolding link_def nxt_level0 [OF tR] by (cases R) auto
  have res: "search h sl e True =
       ret ((case R of [] \<Rightarrow> None | b # _ \<Rightarrow> Some b), of_nat (length A) + 1,
            sl\<lparr>cache := c, posCache := pc\<rparr>)"
    unfolding search_def using num
    by (simp add: st st' get_forward_ret [OF tx] f pos del: upt_Suc)
  have tr: "trail_ok h (sl\<lparr>cache := c, posCache := pc\<rparr>) A"
    unfolding trail_ok_def using prc by simp
  have b: "R \<noteq> [] \<longrightarrow> fst e \<le> key_of h (hd R)"
    using prc [rule_format, of 0] unfolding nxt_level0 [OF tR] by (cases R) auto
  have td: "\<forall>j. level sl < j \<longrightarrow> c ! j = cache sl ! j \<and> pc ! j = posCache sl ! j"
    using todo by simp
  have la': "A \<noteq> [] \<longrightarrow> key_of h (last A) < fst e" using la by simp
  show ?thesis
    apply (rule exI [of _ A], rule exI [of _ R], rule exI [of _ c], rule exI [of _ pc])
    using ns res lc lpc tr td la' b by blast
qed

lemma links_head_only:
  "(\<forall>a \<in> set R. \<not> j < height h a) \<Longrightarrow>
     links h j (x # R) [] = (j < height h x \<longrightarrow> fwd h x j = None)"
  using nxt_None_iff [of h j R] by (simp add: links_low link_def)

lemma nxt_le_length: "nxt h j R = Some (d, y) \<Longrightarrow> 0 < d \<and> d \<le> length R \<and> y \<in> set R"
  by (drule nxt_Some_split) auto

text \<open>Splicing a new node \<open>nn\<close>, tall at level \<open>i\<close>, after the last tall node \<open>x\<close> of the
  prefix.\<close>

lemma splice_links:
  assumes old: "links h i (P @ x # S @ B) []"
    and tx: "i < height h x" and tn: "i < height h nn"
    and low: "\<forall>a \<in> set S. \<not> i < height h a"
    and dist: "distinct (P @ x # S @ B)" and nnew: "nn \<notin> set (P @ x # S @ B)"
    and hts: "\<forall>a. height h' a = height h a"
    and same: "\<forall>a. a \<noteq> x \<longrightarrow> a \<noteq> nn \<longrightarrow> fwd h' a i = fwd h a i \<and> wid h' a i = wid h a i"
    and fx: "fwd h' x i = Some nn" and wx: "wid h' x i = of_nat (Suc (length S))"
    and fn: "fwd h' nn i = fwd h x i"
    and wn: "fwd h x i \<noteq> None \<longrightarrow> wid h' nn i + of_nat (length S) = wid h x i"
  shows "links h' i (P @ x # S @ nn # B) []"
proof -
  have oP: "links h i P (x # S @ B)" and ox: "link h i x (S @ B)" and oB: "links h i B []"
    using old tx by (simp_all add: links_append)
  have xP: "x \<notin> set P" and xB: "x \<notin> set B" using dist by auto
  have nxt_eq: "\<And>R. nxt h' i R = nxt h i R" using hts by (intro nxt_cong) simp
  have "links h' i P [x] = links h i P [x]"
    using hts same xP nnew by (intro links_cong) auto
  then have 1: "links h' i P (x # S @ nn # B)"
    using oP links_tail_tall [of i h x P "S @ B"] links_tail_tall [of i h' x P "S @ nn # B"] tx hts
    by simp
  have "nxt h' i (S @ nn # B) = Some (length S + 1, nn)"
    using low tn by (simp add: nxt_eq nxt_low_prefix)
  then have 2: "link h' i x (S @ nn # B)"
    using fx wx by (simp add: link_def)
  have 3: "links h' i S (nn # B)"
    using low hts by (intro links_low) simp
  have nSB: "nxt h i (S @ B) = map_option (\<lambda>(k, y). (length S + k, y)) (nxt h i B)"
    using low by (rule nxt_low_prefix)
  have 4: "link h' i nn B"
  proof (cases "nxt h i B")
    case None
    then have "fwd h x i = None" using ox nSB by (simp add: link_def)
    then show ?thesis using None fn by (simp add: link_def nxt_eq)
  next
    case (Some r)
    obtain k y where r: "r = (k, y)" by (cases r)
    have f: "fwd h x i = Some y" and w: "wid h x i = of_nat (length S + k)"
      using ox nSB Some r by (simp_all add: link_def)
    have "wid h' nn i + of_nat (length S) = of_nat (length S) + of_nat k"
      using wn f w by simp
    then have "wid h' nn i = of_nat k" by simp
    then show ?thesis using Some r fn f by (simp add: link_def nxt_eq)
  qed
  have 5: "links h' i B []"
    using hts same nnew oB xB
    by (subst links_cong [where h = h]) auto
  show ?thesis
    using 1 2 3 4 5 by (simp add: links_append)
qed

text \<open>A new node \<open>nn\<close> that is not tall at level \<open>i\<close> lengthens the gap that the last tall
  node \<open>x\<close> of the prefix jumps over.\<close>

lemma widen_links:
  assumes old: "links h i (P @ x # S @ B) []"
    and tx: "i < height h x" and tn: "\<not> i < height h nn"
    and low: "\<forall>a \<in> set S. \<not> i < height h a"
    and dist: "distinct (P @ x # S @ B)" and nnew: "nn \<notin> set (P @ x # S @ B)"
    and hts: "\<forall>a. height h' a = height h a"
    and same: "\<forall>a. a \<noteq> x \<longrightarrow> fwd h' a i = fwd h a i \<and> wid h' a i = wid h a i"
    and fx: "fwd h' x i = fwd h x i"
    and wx: "fwd h x i \<noteq> None \<longrightarrow> wid h' x i = wid h x i + 1"
  shows "links h' i (P @ x # S @ nn # B) []"
proof -
  have oP: "links h i P (x # S @ B)" and ox: "link h i x (S @ B)" and oB: "links h i B []"
    using old tx by (simp_all add: links_append)
  have xP: "x \<notin> set P" and xB: "x \<notin> set B" using dist by auto
  have nxt_eq: "\<And>R. nxt h' i R = nxt h i R" using hts by (intro nxt_cong) simp
  have "links h' i P [x] = links h i P [x]"
    using hts same xP by (intro links_cong) auto
  then have 1: "links h' i P (x # S @ nn # B)"
    using oP links_tail_tall [of i h x P "S @ B"] links_tail_tall [of i h' x P "S @ nn # B"] tx hts
    by simp
  have nSB: "nxt h i (S @ B) = map_option (\<lambda>(k, y). (length S + k, y)) (nxt h i B)"
    using low by (rule nxt_low_prefix)
  have low': "\<forall>a \<in> set (S @ [nn]). \<not> i < height h a" using low tn by simp
  have nSnB: "nxt h' i (S @ nn # B) = map_option (\<lambda>(k, y). (Suc (length S) + k, y)) (nxt h i B)"
    using nxt_low_prefix [OF low', of B] by (simp add: nxt_eq)
  have 2: "link h' i x (S @ nn # B)"
  proof (cases "nxt h i B")
    case None
    then show ?thesis using ox nSB nSnB fx by (simp add: link_def)
  next
    case (Some r)
    obtain k y where r: "r = (k, y)" by (cases r)
    have f: "fwd h x i = Some y" and w: "wid h x i = of_nat (length S + k)"
      using ox nSB Some r by (simp_all add: link_def)
    show ?thesis using Some r nSnB fx wx f w by (simp add: link_def)
  qed
  have 3: "links h' i S (nn # B)"
    using low hts by (intro links_low) simp
  have 5: "links h' i B []"
    using hts same oB xB
    by (subst links_cong [where h = h]) auto
  show ?thesis
    using 1 2 3 5 tn hts by (simp add: links_append)
qed

text \<open>Unlinking the node \<open>n\<close> that follows the prefix.\<close>

lemma unlink_links:
  assumes old: "links h i (P @ x # S @ n # B) []"
    and tx: "i < height h x"
    and low: "\<forall>a \<in> set S. \<not> i < height h a"
    and dist: "distinct (P @ x # S @ n # B)"
    and hts: "\<forall>a. height h' a = height h a"
    and same: "\<forall>a. a \<noteq> x \<longrightarrow> fwd h' a i = fwd h a i \<and> wid h' a i = wid h a i"
    and tall: "i < height h n \<longrightarrow> fwd h' x i = fwd h n i \<and>
                 (fwd h n i \<noteq> None \<longrightarrow> wid h' x i = wid h x i + (wid h n i - 1))"
    and short: "\<not> i < height h n \<longrightarrow> fwd h' x i = fwd h x i \<and>
                 (fwd h x i \<noteq> None \<longrightarrow> wid h' x i = wid h x i - 1)"
  shows "links h' i (P @ x # S @ B) []"
proof -
  have oP: "links h i P (x # S @ n # B)" and ox: "link h i x (S @ n # B)"
    and on: "i < height h n \<longrightarrow> link h i n B" and oB: "links h i B []"
    using old tx by (simp_all add: links_append)
  have xP: "x \<notin> set P" and xB: "x \<notin> set B" using dist by auto
  have nxt_eq: "\<And>R. nxt h' i R = nxt h i R" using hts by (intro nxt_cong) simp
  have "links h' i P [x] = links h i P [x]"
    using hts same xP by (intro links_cong) auto
  then have 1: "links h' i P (x # S @ B)"
    using oP links_tail_tall [of i h x P "S @ n # B"] links_tail_tall [of i h' x P "S @ B"] tx hts
    by simp
  have nSB: "nxt h' i (S @ B) = map_option (\<lambda>(k, y). (length S + k, y)) (nxt h i B)"
    using nxt_low_prefix [OF low, of B] by (simp add: nxt_eq)
  have 2: "link h' i x (S @ B)"
  proof (cases "i < height h n")
    case True
    have "nxt h i (S @ n # B) = Some (length S + 1, n)"
      using low True by (simp add: nxt_low_prefix)
    then have wxo: "wid h x i = of_nat (length S + 1)" using ox by (simp add: link_def)
    show ?thesis
    proof (cases "nxt h i B")
      case None
      then have "fwd h n i = None" using on True by (simp add: link_def)
      then show ?thesis using None nSB tall True by (simp add: link_def)
    next
      case (Some r)
      obtain k y where r: "r = (k, y)" by (cases r)
      have "fwd h n i = Some y" "wid h n i = of_nat k"
        using on True Some r by (simp_all add: link_def)
      then show ?thesis using Some r nSB tall True wxo by (simp add: link_def)
    qed
  next
    case False
    have low': "\<forall>a \<in> set (S @ [n]). \<not> i < height h a" using low False by simp
    have nSnB: "nxt h i (S @ n # B) = map_option (\<lambda>(k, y). (Suc (length S) + k, y)) (nxt h i B)"
      using nxt_low_prefix [OF low', of B] by simp
    show ?thesis
    proof (cases "nxt h i B")
      case None
      then show ?thesis using ox nSB nSnB short False by (simp add: link_def)
    next
      case (Some r)
      obtain k y where r: "r = (k, y)" by (cases r)
      have "fwd h x i = Some y" "wid h x i = of_nat (Suc (length S) + k)"
        using ox nSnB Some r by (simp_all add: link_def)
      then show ?thesis using Some r nSB short False by (simp add: link_def)
    qed
  qed
  have 3: "links h' i S B"
    using low hts by (intro links_low) simp
  have 5: "links h' i B []"
    using hts same oB xB
    by (subst links_cong [where h = h]) auto
  show ?thesis
    using 1 2 3 5 by (simp add: links_append)
qed

lemma generateLevel_from_le:
  "lvl \<le> bound \<Longrightarrow> generateLevel_from bound draws lvl \<le> bound"
proof (induction bound draws lvl rule: generateLevel_from.induct)
  case (1 bound draws lvl)
  show ?case
  proof (cases "lvl < bound \<and> \<not> draws (lvl - 1)")
    case True
    then have "generateLevel_from bound draws (Suc lvl) \<le> bound" using 1 by simp
    then show ?thesis using True by (subst generateLevel_from.simps) simp
  next
    case False
    then show ?thesis using 1(2) by (subst generateLevel_from.simps) auto
  qed
qed

lemma generateLevel_bounds:
  assumes "2 \<le> ml" "ml \<le> 255"
  shows "1 \<le> generateLevel ml draws \<and> generateLevel ml draws < ml"
proof -
  have b: "(ml + 255) mod 256 = ml - 1" using assms by (simp add: mod_if)
  have "generateLevel_from (ml - 1) draws 1 \<le> ml - 1"
    using assms by (intro generateLevel_from_le) simp
  moreover have "1 \<le> generateLevel_from (ml - 1) draws 1" by (rule generateLevel_from_ge)
  ultimately show ?thesis using assms unfolding generateLevel_def b by simp
qed

lemma raise_loop:
  assumes "b \<le> length (cache s)"
  shows "\<exists>c. for_levels raise_step [a..<b] s = ret (s\<lparr>cache := c\<rparr>) \<and> length c = length (cache s) \<and>
           (\<forall>j. c ! j = (if a \<le> j \<and> j < b then Some (head s) else cache s ! j))"
proof (cases "a \<le> b")
  case False
  then show ?thesis by (intro exI [of _ "cache s"]) auto
next
  case True
  define Q where "Q k s' \<longleftrightarrow> (\<exists>c. s' = s\<lparr>cache := c\<rparr> \<and> length c = length (cache s) \<and>
           (\<forall>j. c ! j = (if a \<le> j \<and> j < k then Some (head s) else cache s ! j)))" for k s'
  have init: "Q a s" unfolding Q_def by (intro exI [of _ "cache s"]) auto
  have step: "\<exists>s''. raise_step k s' = ret s'' \<and> Q (Suc k) s''" if "a \<le> k" "k < b" "Q k s'" for k s'
  proof -
    from that(3) obtain c where c: "s' = s\<lparr>cache := c\<rparr>" "length c = length (cache s)"
      "\<forall>j. c ! j = (if a \<le> j \<and> j < k then Some (head s) else cache s ! j)"
      unfolding Q_def by blast
    have kl: "k < length c" using that(2) assms c(2) by simp
    have "raise_step k s' = ret (s\<lparr>cache := c[k := Some (head s)]\<rparr>)"
      unfolding raise_step_def c(1) using kl by (simp add: put_def)
    moreover have "Q (Suc k) (s\<lparr>cache := c[k := Some (head s)]\<rparr>)"
      unfolding Q_def using c(2,3) kl that(1)
      by (intro exI [of _ "c[k := Some (head s)]"]) (auto simp: nth_list_update less_Suc_eq)
    ultimately show ?thesis by blast
  qed
  have "\<exists>s'. for_levels raise_step [a..<b] s = ret s' \<and> Q b s'"
  proof (rule for_levels_up [where Q = Q, OF init True])
    fix k s' assume "a \<le> k" "k < b" "Q k s'"
    then show "\<exists>s''. raise_step k s' = ret s'' \<and> Q (Suc k) s''" by (rule step)
  qed
  then show ?thesis unfolding Q_def by blast
qed

lemma same_shape_refl [simp]: "same_shape h h"
  by (simp add: same_shape_def)

lemma same_shape_upd_fwd: "same_shape h h' \<Longrightarrow> same_shape h (upd_fwd h' a i v)"
  by (simp add: same_shape_def)

lemma same_shape_upd_wid: "same_shape h h' \<Longrightarrow> same_shape h (upd_wid h' a i v)"
  by (simp add: same_shape_def)

lemma same_shape_lastj: "same_shape h h' \<Longrightarrow> lastj h' j x A = lastj h j x A"
  by (intro lastj_cong) (simp add: same_shape_def)

lemma same_shape_gapj: "same_shape h h' \<Longrightarrow> gapj h' j A = gapj h j A"
  by (intro gapj_cong) (simp add: same_shape_def)

lemma links_other_level:
  assumes "\<forall>a. height h' a = height h a"
    and "\<forall>a. fwd h' a j = fwd h a j \<and> wid h' a j = wid h a j"
  shows "links h' j L T = links h j L T"
  using assms by (intro links_cong) auto

lemma word_trail_diff:
  fixes pc :: u64
  assumes "pc + of_nat g = of_nat a"
  shows "of_nat a + 1 - pc = of_nat (Suc g)"
proof -
  have "of_nat a - pc = (of_nat g :: u64)" using assms [symmetric] by simp
  then show ?thesis by (simp add: algebra_simps)
qed

lemma word_new_width:
  fixes pc :: u64
  assumes "pc + of_nat g = of_nat a"
  shows "pc + fw + 1 - (of_nat a + 1) + of_nat g = fw"
proof -
  have "of_nat a = pc + (of_nat g :: u64)" using assms by simp
  then show ?thesis by (simp add: algebra_simps)
qed

lemma splice_step_inv:
  assumes R: "relink_inv ml h1 (hx # A @ B) (hx # A @ nn # B) i h'" and iml: "i < ml"
    and dist: "distinct (hx # A @ B)" and nnew: "nn \<notin> set (hx # A @ B)"
    and thd: "i < height h1 hx" and tnn: "i < height h1 nn"
    and wl: "\<forall>a \<in> set (hx # A @ nn # B). length (widths (cells h1 a)) = height h1 a"
    and ci: "i < length (cache sl)" "cache sl ! i = Some (lastj h1 i hx A)"
    and pi: "i < length (posCache sl)" "posCache sl ! i + of_nat (gapj h1 i A) = of_nat (length A)"
    and pos: "pos = of_nat (length A) + 1"
    and len: "length (A @ B) < 2 ^ 64"
  shows "\<exists>h''. splice_step sl nn pos i h' = ret h'' \<and>
           relink_inv ml h1 (hx # A @ B) (hx # A @ nn # B) (Suc i) h''"
proof -
  have ss: "same_shape h1 h'" and lk: "\<forall>j < ml. if j < i then links h' j (hx # A @ nn # B) []
      else links h' j (hx # A @ B) []"
    using R unfolding relink_inv_def by blast+
  have hts: "\<And>a. height h' a = height h1 a"
    and wls: "\<And>a. length (widths (cells h' a)) = length (widths (cells h1 a))"
    using ss by (simp_all add: same_shape_def)
  define x where "x = lastj h1 i hx A"
  obtain P S where PS: "hx # A = P @ x # S" and low: "\<forall>a \<in> set S. \<not> i < height h1 a"
    and lS: "length S = gapj h1 i A"
    using lastj_split [of hx A h1 i] unfolding x_def by blast
  have tx: "i < height h1 x" unfolding x_def using thd by (rule lastj_tall)
  have xin: "x \<in> set (hx # A)" unfolding x_def by (rule lastj_in)
  have xnn: "x \<noteq> nn" using xin nnew by auto
  have wx: "length (widths (cells h1 x)) = height h1 x" using wl xin by auto
  have wn: "length (widths (cells h1 nn)) = height h1 nn" using wl by simp
  have old_eq: "hx # A @ B = P @ x # S @ B" and new_eq: "hx # A @ nn # B = P @ x # S @ nn # B"
    using PS by (metis append_Cons append_assoc)+
  have "links h' i (hx # A @ B) []" using lk [rule_format, of i] iml by simp
  then have oldl: "links h' i (P @ x # S @ B) []" unfolding old_eq .
  have lx: "link h' i x (S @ B)" using links_at [OF oldl] tx hts by simp
  define f where "f = fwd h' x i"
  define fw where "fw = wid h' x i"
  define pc where "pc = posCache sl ! i"
  define wnn where "wnn = (if fw = 0 then 0 else pc + fw + 1 - pos)"
  define h'' where "h'' = upd_wid (upd_wid (upd_fwd (upd_fwd h' nn i f) x i (Some nn)) nn i wnn) x i (pos - pc)"
  have step: "splice_step sl nn pos i h' = ret h''"
    unfolding splice_step_def h''_def wnn_def f_def fw_def pc_def
    using ci pi tx tnn wx wn xnn
    by (simp add: at_def x_def [symmetric] get_forward_ret set_forward_ret get_width_ret
        set_width_ret hts wls fwd_upd_fwd)
  have ss'': "same_shape h1 h''"
    unfolding h''_def using ss by (intro same_shape_upd_wid same_shape_upd_fwd)
  have hts'': "\<forall>a. height h'' a = height h' a" unfolding h''_def by simp
  have fwd'': "\<And>a j. fwd h'' a j = (if a = x \<and> j = i then Some nn else if a = nn \<and> j = i then f
      else fwd h' a j)"
    unfolding h''_def using tx tnn xnn by (simp add: fwd_upd_fwd hts)
  have wid'': "\<And>a j. wid h'' a j = (if a = x \<and> j = i then pos - pc else if a = nn \<and> j = i then wnn
      else wid h' a j)"
    unfolding h''_def using tx tnn xnn wx wn by (simp add: wid_upd_wid wls)
  have trail: "pc + of_nat (length S) = of_nat (length A)" unfolding pc_def lS using pi(2) .
  have new_i: "links h'' i (P @ x # S @ nn # B) []"
  proof (rule splice_links [OF oldl])
    show "i < height h' x" "i < height h' nn" using tx tnn hts by simp_all
    show "\<forall>a \<in> set S. \<not> i < height h' a" using low hts by simp
    show "distinct (P @ x # S @ B)" using dist old_eq by simp
    show "nn \<notin> set (P @ x # S @ B)" using nnew old_eq by simp
    show "\<forall>a. height h'' a = height h' a" by (rule hts'')
    show "\<forall>a. a \<noteq> x \<longrightarrow> a \<noteq> nn \<longrightarrow> fwd h'' a i = fwd h' a i \<and> wid h'' a i = wid h' a i"
      by (simp add: fwd'' wid'')
    show "fwd h'' x i = Some nn" by (simp add: fwd'')
    show "wid h'' x i = of_nat (Suc (length S))"
      using word_trail_diff [OF trail] by (simp add: wid'' pos)
    show "fwd h'' nn i = fwd h' x i" using xnn by (simp add: fwd'' f_def)
    show "fwd h' x i \<noteq> None \<longrightarrow> wid h'' nn i + of_nat (length S) = wid h' x i"
    proof
      assume ne: "fwd h' x i \<noteq> None"
      then obtain d y where dy: "nxt h' i (S @ B) = Some (d, y)" and w: "wid h' x i = of_nat d"
        using lx by (auto simp: link_def split: option.splits)
      from nxt_le_length [OF dy] have "0 < d" "d \<le> length (S @ B)" by auto
      moreover have "length S \<le> length A" unfolding lS by (rule gapj_le)
      ultimately have "d < 2 ^ 64" "d \<noteq> 0" using len by auto
      then have "fw \<noteq> 0" unfolding fw_def w by (simp add: of_nat_u64_eq_0)
      then have "wid h'' nn i = pc + fw + 1 - (of_nat (length A) + 1)"
        using xnn by (simp add: wid'' wnn_def pos)
      then show "wid h'' nn i + of_nat (length S) = wid h' x i"
        using word_new_width [OF trail, of fw] by (simp add: fw_def)
    qed
  qed
  have "relink_inv ml h1 (hx # A @ B) (hx # A @ nn # B) (Suc i) h''"
    unfolding relink_inv_def
  proof (intro conjI allI impI)
    show "same_shape h1 h''" by (rule ss'')
  next
    fix j assume j: "j < ml"
    show "if j < Suc i then links h'' j (hx # A @ nn # B) [] else links h'' j (hx # A @ B) []"
    proof (cases "j = i")
      case True
      then show ?thesis using new_i unfolding new_eq by simp
    next
      case False
      have "\<And>L. links h'' j L [] = links h' j L []"
        using hts'' False by (intro links_other_level) (simp_all add: fwd'' wid'')
      then show ?thesis using lk [rule_format, OF j] False
        by (simp add: less_Suc_eq del: links.simps)
    qed
  qed
  with step show ?thesis by blast
qed

lemma widen_step_inv:
  assumes R: "relink_inv ml h1 (hx # A @ B) (hx # A @ nn # B) i h'" and iml: "i < ml"
    and dist: "distinct (hx # A @ B)" and nnew: "nn \<notin> set (hx # A @ B)"
    and thd: "i < height h1 hx" and tnn: "\<not> i < height h1 nn"
    and wl: "\<forall>a \<in> set (hx # A). length (widths (cells h1 a)) = height h1 a"
    and ci: "i < length (cache sl)" "cache sl ! i = Some (lastj h1 i hx A)"
  shows "\<exists>h''. widen_step sl i h' = ret h'' \<and>
           relink_inv ml h1 (hx # A @ B) (hx # A @ nn # B) (Suc i) h''"
proof -
  have ss: "same_shape h1 h'" and lk: "\<forall>j < ml. if j < i then links h' j (hx # A @ nn # B) []
      else links h' j (hx # A @ B) []"
    using R unfolding relink_inv_def by blast+
  have hts: "\<And>a. height h' a = height h1 a"
    and wls: "\<And>a. length (widths (cells h' a)) = length (widths (cells h1 a))"
    using ss by (simp_all add: same_shape_def)
  define x where "x = lastj h1 i hx A"
  obtain P S where PS: "hx # A = P @ x # S" and low: "\<forall>a \<in> set S. \<not> i < height h1 a"
    using lastj_split [of hx A h1 i] unfolding x_def by blast
  have tx: "i < height h1 x" unfolding x_def using thd by (rule lastj_tall)
  have xin: "x \<in> set (hx # A)" unfolding x_def by (rule lastj_in)
  have wx: "length (widths (cells h1 x)) = height h1 x" using wl xin by auto
  have old_eq: "hx # A @ B = P @ x # S @ B" and new_eq: "hx # A @ nn # B = P @ x # S @ nn # B"
    using PS by (metis append_Cons append_assoc)+
  have "links h' i (hx # A @ B) []" using lk [rule_format, of i] iml by simp
  then have oldl: "links h' i (P @ x # S @ B) []" unfolding old_eq .
  define h'' where "h'' = (if fwd h' x i = None then h' else upd_wid h' x i (wid h' x i + 1))"
  have step: "widen_step sl i h' = ret h''"
    unfolding widen_step_def h''_def
    using ci tx wx
    by (simp add: at_def x_def [symmetric] get_forward_ret get_width_ret set_width_ret hts wls)
  have ss'': "same_shape h1 h''"
    unfolding h''_def using ss by (simp add: same_shape_upd_wid)
  have hts'': "\<forall>a. height h'' a = height h' a" unfolding h''_def by simp
  have fwd'': "\<And>a j. fwd h'' a j = fwd h' a j" unfolding h''_def by simp
  have wid'': "\<And>a j. wid h'' a j = (if a = x \<and> j = i \<and> fwd h' x i \<noteq> None then wid h' x i + 1
      else wid h' a j)"
    unfolding h''_def using tx wx by (simp add: wid_upd_wid wls)
  have new_i: "links h'' i (P @ x # S @ nn # B) []"
  proof (rule widen_links [OF oldl])
    show "i < height h' x" "\<not> i < height h' nn" using tx tnn hts by simp_all
    show "\<forall>a \<in> set S. \<not> i < height h' a" using low hts by simp
    show "distinct (P @ x # S @ B)" using dist unfolding old_eq .
    show "nn \<notin> set (P @ x # S @ B)" using nnew unfolding old_eq .
    show "\<forall>a. height h'' a = height h' a" by (rule hts'')
    show "\<forall>a. a \<noteq> x \<longrightarrow> fwd h'' a i = fwd h' a i \<and> wid h'' a i = wid h' a i"
      by (simp add: fwd'' wid'')
    show "fwd h'' x i = fwd h' x i" by (simp add: fwd'')
    show "fwd h' x i \<noteq> None \<longrightarrow> wid h'' x i = wid h' x i + 1" by (simp add: wid'')
  qed
  have "relink_inv ml h1 (hx # A @ B) (hx # A @ nn # B) (Suc i) h''"
    unfolding relink_inv_def
  proof (intro conjI allI impI)
    show "same_shape h1 h''" by (rule ss'')
  next
    fix j assume j: "j < ml"
    show "if j < Suc i then links h'' j (hx # A @ nn # B) [] else links h'' j (hx # A @ B) []"
    proof (cases "j = i")
      case True
      then show ?thesis using new_i unfolding new_eq by simp
    next
      case False
      have "\<And>L. links h'' j L [] = links h' j L []"
        using hts'' False by (intro links_other_level) (simp_all add: fwd'' wid'')
      then show ?thesis using lk [rule_format, OF j] False
        by (simp add: less_Suc_eq del: links.simps)
    qed
  qed
  with step show ?thesis by blast
qed

lemma newNode_facts:
  assumes "newNode h e g = (h1, nn)"
  shows "nn = alloc h" "alloc h1 = Suc (alloc h)" "height h1 nn = g"
    "length (widths (cells h1 nn)) = g" "entry (cells h1 nn) = e"
    "\<And>a. a \<noteq> nn \<Longrightarrow> cells h1 a = cells h a"
    "\<And>j. j < g \<Longrightarrow> fwd h1 nn j = None \<and> wid h1 nn j = 0"
  using assms by (auto simp: newNode_def height_def fwd_def wid_def)

lemma cells_eq_obs:
  assumes "cells h1 a = cells h a"
  shows "height h1 a = height h a" "fwd h1 a j = fwd h a j" "wid h1 a j = wid h a j"
    "key_of h1 a = key_of h a"
  using assms by (simp_all add: height_def fwd_def wid_def key_of_def)

lemma lastj_all_low:
  "(\<forall>a \<in> set A. \<not> j < height h a) \<Longrightarrow> lastj h j x A = x \<and> gapj h j A = length A"
  using lastj_low [of A j h x "[]"] gapj_low [of A j h "[]"] by simp

lemma insertNode_new:
  assumes inv: "sl_inv h sl ns" and ns: "ns = A @ B"
    and tr: "\<forall>j < level sl. cache sl ! j = Some (lastj h j (head sl) A) \<and>
               posCache sl ! j + of_nat (gapj h j A) = of_nat (length A)"
    and pos: "pos = of_nat (length A) + 1"
    and len: "Suc (length ns) < 2 ^ 64"
    and noupd: "allowDuplicate \<or> n = None \<or>
                 (\<exists>a. n = Some a \<and> entry (cells h a) \<noteq> None \<and> key_of h a \<noteq> fst e)"
  shows "\<exists>h' sl'. insertNode draws h sl n e pos allowDuplicate = ret (h', sl', None) \<and>
           sl_inv h' sl' (A @ alloc h # B) \<and> alloc h' = Suc (alloc h) \<and>
           entry (cells h' (alloc h)) = Some e \<and>
           (\<forall>a. a \<noteq> alloc h \<longrightarrow> entry (cells h' a) = entry (cells h a)) \<and>
           maxLevel sl' = maxLevel sl \<and> head sl' = head sl"
proof -
  define ml where "ml = maxLevel sl"
  define hx where "hx = head sl"
  define g where "g = generateLevel ml draws"
  define L2 where "L2 = max (level sl) g"
  note b = sl_inv_bounds [OF inv, folded ml_def hx_def]
  have g: "1 \<le> g" "g < ml" using generateLevel_bounds [of ml draws] b by (simp_all add: g_def)
  have chk: "(if \<not> allowDuplicate \<and> n \<noteq> None
          then bnd (node_Compare h n e) (\<lambda>c. ret (c = 0)) else ret False) = ret False"
  proof (cases "\<not> allowDuplicate \<and> n \<noteq> None")
    case True
    with noupd obtain a where a: "n = Some a" "entry (cells h a) \<noteq> None" "key_of h a \<noteq> fst e"
      by auto
    show ?thesis using True a(3) by (simp add: a(1) node_Compare_ret [OF a(2)])
  qed auto
  define sl1 where "sl1 = sl\<lparr>num := num sl + 1\<rparr>"
  \<comment> \<open>raising the level\<close>
  have "\<exists>c2. (if g > level sl1
                 then bnd (for_levels raise_step [level sl1..<g] sl1) (\<lambda>s. ret (s\<lparr>level := g\<rparr>))
                 else ret sl1) = ret (sl1\<lparr>cache := c2, level := L2\<rparr>) \<and>
          length c2 = ml \<and>
          (\<forall>j. c2 ! j = (if level sl \<le> j \<and> j < g then Some hx else cache sl ! j))"
  proof (cases "g > level sl")
    case True
    have "g \<le> length (cache sl1)" using b g by (simp add: sl1_def)
    from raise_loop [OF this, of "level sl1"] obtain c where
      c: "for_levels raise_step [level sl1..<g] sl1 = ret (sl1\<lparr>cache := c\<rparr>)"
      "length c = length (cache sl1)"
      "\<forall>j. c ! j = (if level sl1 \<le> j \<and> j < g then Some (head sl1) else cache sl1 ! j)"
      by blast
    show ?thesis
      using True c b by (intro exI [of _ c]) (simp add: sl1_def L2_def hx_def max_def)
  next
    case False
    then show ?thesis
      using b by (intro exI [of _ "cache sl"]) (auto simp: sl1_def L2_def max_def)
  qed
  then obtain c2 where raise: "(if g > level sl1
                 then bnd (for_levels raise_step [level sl1..<g] sl1) (\<lambda>s. ret (s\<lparr>level := g\<rparr>))
                 else ret sl1) = ret (sl1\<lparr>cache := c2, level := L2\<rparr>)"
    and lc2: "length c2 = ml"
    and c2: "\<forall>j. c2 ! j = (if level sl \<le> j \<and> j < g then Some hx else cache sl ! j)"
    by blast
  define sl2 where "sl2 = sl1\<lparr>cache := c2, level := L2\<rparr>"
  have sl2: "maxLevel sl2 = ml" "head sl2 = hx" "level sl2 = L2" "cache sl2 = c2"
    "posCache sl2 = posCache sl" "num sl2 = num sl + 1"
    by (simp_all add: sl2_def sl1_def ml_def hx_def)
  have hA: "\<forall>a \<in> set (A @ B). 1 \<le> height h a \<and> height h a \<le> level sl \<and> entry (cells h a) \<noteq> None"
    using sl_inv_elem [OF inv] ns by simp
  have hle: "height h a \<le> level sl" if "a \<in> set (A @ B)" for a
    using sl_inv_elem [OF inv, of a] that ns by simp
  have tr2: "c2 ! j = Some (lastj h j hx A) \<and> posCache sl ! j + of_nat (gapj h j A) = of_nat (length A)"
    if "j < L2" for j
  proof (cases "j < level sl")
    case True
    then show ?thesis using tr c2 by (simp add: hx_def)
  next
    case False
    then have jg: "level sl \<le> j" "j < g" using that by (simp_all add: L2_def)
    have "\<not> j < height h a" if "a \<in> set A" for a
      using hle [of a] that jg by simp
    then have "\<forall>a \<in> set A. \<not> j < height h a" by blast
    from lastj_all_low [OF this] have "lastj h j hx A = hx" "gapj h j A = length A" by simp_all
    moreover have "posCache sl ! j = 0" using sl_inv_pc [OF inv jg(1)] jg g by (simp add: ml_def)
    ultimately show ?thesis using c2 jg by simp
  qed
  \<comment> \<open>the new node\<close>
  obtain h1 nn where nn: "newNode h (Some e) g = (h1, nn)" by (cases "newNode h (Some e) g")
  note nf = newNode_facts [OF nn]
  have nodes: "\<forall>a \<in> set (hx # ns). a < alloc h \<and> length (widths (cells h a)) = height h a"
    using sl_inv_node [OF inv] by (simp add: hx_def)
  have nnew: "nn \<notin> set (hx # A @ B)" using nodes nf(1) ns by auto
  have old1: "\<And>a. a \<in> set (hx # A @ B) \<Longrightarrow> cells h1 a = cells h a"
    using nnew nf(6) by metis
  have ht1: "\<And>a. a \<in> set (hx # A @ B) \<Longrightarrow> height h1 a = height h a"
    using old1 by (simp add: height_def)
  have obs1: "\<And>a j. a \<in> set (hx # A @ B) \<Longrightarrow>
      height h1 a = height h a \<and> fwd h1 a j = fwd h a j \<and> wid h1 a j = wid h a j"
    using old1 by (simp add: height_def fwd_def wid_def)
  have dist: "distinct (hx # A @ B)" using sl_inv_distinct [OF inv] ns by (simp add: hx_def)
  have lj1: "\<And>j. lastj h1 j hx A = lastj h j hx A" "\<And>j. gapj h1 j A = gapj h j A"
    using ht1 by (intro lastj_cong gapj_cong; simp)+
  have links1: "links h1 j (hx # A @ B) []" if "j < ml" for j
  proof -
    have "links h1 j (hx # A @ B) [] = links h j (hx # A @ B) []"
      using obs1 by (intro links_cong) auto
    then show ?thesis using sl_inv_links [OF inv, of j] that ns by (simp add: ml_def hx_def)
  qed
  have hhx: "height h1 hx = ml" using ht1 [of hx] b by simp
  have wl1: "\<forall>a \<in> set (hx # A @ nn # B). length (widths (cells h1 a)) = height h1 a"
  proof
    fix a assume "a \<in> set (hx # A @ nn # B)"
    then consider "a = nn" | "a \<in> set (hx # A @ B)" by auto
    then show "length (widths (cells h1 a)) = height h1 a"
    proof cases
      case 1
      then show ?thesis using nf(3,4) by simp
    next
      case 2
      then show ?thesis using old1 [OF 2] ht1 [OF 2] nodes ns by auto
    qed
  qed
  let ?old = "hx # A @ B" and ?new = "hx # A @ nn # B"
  have init: "relink_inv ml h1 ?old ?new 0 h1"
    unfolding relink_inv_def using links1 by simp
  have lenAB: "length (A @ B) < 2 ^ 64" using len ns by simp
  \<comment> \<open>the splice loop\<close>
  have "\<exists>h2. for_levels (splice_step sl2 nn pos) [0..<g] h1 = ret h2 \<and> relink_inv ml h1 ?old ?new g h2"
  proof (rule for_levels_up [where Q = "relink_inv ml h1 ?old ?new", OF init])
    show "0 \<le> g" by simp
  next
    fix i h' assume i: "0 \<le> i" "i < g" and R: "relink_inv ml h1 ?old ?new i h'"
    have iL: "i < L2" using i by (simp add: L2_def)
    show "\<exists>h''. splice_step sl2 nn pos i h' = ret h'' \<and> relink_inv ml h1 ?old ?new (Suc i) h''"
    proof (rule splice_step_inv [OF R _ dist nnew _ _ wl1 _ _ _ _ pos lenAB])
      show "i < ml" using i g by simp
      show "i < height h1 hx" using hhx i g by simp
      show "i < height h1 nn" using nf(3) i by simp
      show "i < length (cache sl2)" using sl2 lc2 i g by simp
      show "cache sl2 ! i = Some (lastj h1 i hx A)" using tr2 [OF iL] sl2 lj1 by simp
      show "i < length (posCache sl2)" using sl2 b i g by simp
      show "posCache sl2 ! i + of_nat (gapj h1 i A) = of_nat (length A)"
        using tr2 [OF iL] sl2 lj1 by simp
    qed
  qed
  then obtain h2 where sp: "for_levels (splice_step sl2 nn pos) [0..<g] h1 = ret h2"
    and R2: "relink_inv ml h1 ?old ?new g h2" by blast
  \<comment> \<open>the loop over the levels above the new node\<close>
  have gL: "g \<le> L2" by (simp add: L2_def)
  have L2ml: "L2 < ml" using b g by (simp add: L2_def)
  have "\<exists>h3. for_levels (widen_step sl2) [g..<L2] h2 = ret h3 \<and> relink_inv ml h1 ?old ?new L2 h3"
  proof (rule for_levels_up [where Q = "relink_inv ml h1 ?old ?new", OF R2 gL])
    fix i h' assume i: "g \<le> i" "i < L2" and R: "relink_inv ml h1 ?old ?new i h'"
    show "\<exists>h''. widen_step sl2 i h' = ret h'' \<and> relink_inv ml h1 ?old ?new (Suc i) h''"
    proof (rule widen_step_inv [OF R _ dist nnew])
      show "i < ml" using i L2ml by simp
      show "i < height h1 hx" using hhx i L2ml by simp
      show "\<not> i < height h1 nn" using nf(3) i by simp
      show "\<forall>a \<in> set (hx # A). length (widths (cells h1 a)) = height h1 a" using wl1 by simp
      show "i < length (cache sl2)" using sl2 lc2 i L2ml by simp
      show "cache sl2 ! i = Some (lastj h1 i hx A)" using tr2 [OF i(2)] sl2 lj1 by simp
    qed
  qed
  then obtain h3 where wd: "for_levels (widen_step sl2) [g..<L2] h2 = ret h3"
    and R3: "relink_inv ml h1 ?old ?new L2 h3" by blast
  have ss3: "same_shape h1 h3"
    and lk3: "\<forall>j < ml. if j < L2 then links h3 j ?new [] else links h3 j ?old []"
    using R3 unfolding relink_inv_def by blast+
  have ht3: "\<And>a. height h3 a = height h1 a"
    and wl3: "\<And>a. length (widths (cells h3 a)) = length (widths (cells h1 a))"
    and en3: "\<And>a. entry (cells h3 a) = entry (cells h1 a)"
    and al3: "alloc h3 = alloc h1"
    using ss3 by (simp_all add: same_shape_def)
  \<comment> \<open>the result\<close>
  have res: "insertNode draws h sl n e pos allowDuplicate = ret (h3, sl2, None)"
  proof -
    have "insertNode draws h sl n e pos allowDuplicate =
       bnd (if g > level sl1
            then bnd (for_levels raise_step [level sl1..<g] sl1) (\<lambda>s. ret (s\<lparr>level := g\<rparr>))
            else ret sl1)
         (\<lambda>s2. case newNode h (Some e) g of (h1, nn) \<Rightarrow>
            bnd (for_levels (splice_step s2 nn pos) [0..<g] h1) (\<lambda>h2.
            bnd (for_levels (widen_step s2) [g..<level s2] h2) (\<lambda>h3. ret (h3, s2, None))))"
      unfolding insertNode_def chk by (simp add: Let_def sl1_def g_def ml_def)
    also have "\<dots> = ret (h3, sl2, None)"
      unfolding raise sl2_def [symmetric] by (simp add: nn sp sl2(3) wd)
    finally show ?thesis .
  qed
  have hnew: "\<forall>a \<in> set (A @ nn # B). 1 \<le> height h3 a \<and> height h3 a \<le> L2 \<and> entry (cells h3 a) \<noteq> None"
  proof
    fix a assume "a \<in> set (A @ nn # B)"
    then consider "a = nn" | "a \<in> set (A @ B)" by auto
    then show "1 \<le> height h3 a \<and> height h3 a \<le> L2 \<and> entry (cells h3 a) \<noteq> None"
    proof cases
      case 1
      then show ?thesis using nf(3,5) g gL by (simp add: ht3 en3)
    next
      case 2
      then have "cells h1 a = cells h a" "height h1 a = height h a" using old1 ht1 by simp_all
      then show ?thesis using sl_inv_elem [OF inv, of a] 2 ns by (auto simp: ht3 en3 L2_def le_max_iff_disj)
    qed
  qed
  have links3: "links h3 j ?new []" if j: "j < ml" for j
  proof (cases "j < L2")
    case True
    then show ?thesis using lk3 [rule_format, OF j] by simp
  next
    case False
    then have o: "links h3 j ?old []" using lk3 [rule_format, OF j] by simp
    have "\<forall>a \<in> set (A @ nn # B). \<not> j < height h3 a"
    proof
      fix a assume "a \<in> set (A @ nn # B)"
      with hnew have "height h3 a \<le> L2" by blast
      then show "\<not> j < height h3 a" using False by simp
    qed
    then have lo: "\<forall>a \<in> set (A @ nn # B). \<not> j < height h3 a"
      and lo': "\<forall>a \<in> set (A @ B). \<not> j < height h3 a" by auto
    show ?thesis
      using o unfolding links_head_only [OF lo] links_head_only [OF lo'] .
  qed
  have inv3: "sl_inv h3 sl2 (A @ nn # B)"
    unfolding sl_inv_def sl2
  proof (intro conjI)
    show "2 \<le> ml" "ml \<le> 255" using b by simp_all
    show "L2 < ml" by (rule L2ml)
    show "length c2 = ml" by (rule lc2)
    show "length (posCache sl) = ml" using b by simp
    show "distinct (hx # A @ nn # B)" using dist nnew by auto
    show "\<forall>a \<in> set (hx # A @ nn # B). a < alloc h3 \<and> length (widths (cells h3 a)) = height h3 a"
    proof
      fix a assume a: "a \<in> set (hx # A @ nn # B)"
      then consider "a = nn" | "a \<in> set (hx # ns)" using ns by auto
      then have "a < Suc (alloc h)"
      proof cases
        case 1
        then show ?thesis using nf(1) by simp
      next
        case 2
        then show ?thesis using sl_inv_node [OF inv, of a] by (simp add: hx_def)
      qed
      moreover from wl1 a have "length (widths (cells h1 a)) = height h1 a" by blast
      ultimately show "a < alloc h3 \<and> length (widths (cells h3 a)) = height h3 a"
        by (simp add: al3 wl3 ht3 nf(2))
    qed
    show "height h3 hx = ml" using hhx by (simp add: ht3)
    show "\<forall>a \<in> set (A @ nn # B). 1 \<le> height h3 a \<and> height h3 a \<le> L2 \<and> entry (cells h3 a) \<noteq> None"
      by (rule hnew)
    show "\<forall>j < ml. links h3 j (hx # A @ nn # B) []" using links3 by blast
    show "num sl + 1 = of_nat (length (A @ nn # B))"
      using sl_inv_num [OF inv] ns by simp
    show "length (A @ nn # B) < 2 ^ 64" using len ns by simp
    show "\<forall>j. L2 \<le> j \<longrightarrow> j < ml \<longrightarrow> posCache sl ! j = 0"
      using sl_inv_pc [OF inv] by (simp add: L2_def ml_def)
    show "A @ nn # B = [] \<longrightarrow> (\<forall>j < ml. posCache sl ! j = 0) \<and> (\<forall>j < L2. c2 ! j = Some hx)"
      by simp
  qed
  have "entry (cells h3 a) = entry (cells h a)" if "a \<noteq> alloc h" for a
    using nf(6) [of a] that nf(1) by (simp add: en3)
  then show ?thesis
    using res inv3 nf(1,2,5) sl2(1,2)
    by (intro exI [of _ h3] exI [of _ sl2]) (simp add: al3 en3 ml_def hx_def)
qed

lemma set_entry_obs [simp]:
  "height (set_entry h b v) a = height h a"
  "fwd (set_entry h b v) a j = fwd h a j"
  "wid (set_entry h b v) a j = wid h a j"
  "alloc (set_entry h b v) = alloc h"
  "length (widths (cells (set_entry h b v) a)) = length (widths (cells h a))"
  "entry (cells (set_entry h b v) a) = (if a = b then v else entry (cells h a))"
  by (simp_all add: set_entry_def height_def fwd_def wid_def)

lemma sl_inv_set_entry:
  assumes "sl_inv h sl ns"
  shows "sl_inv (set_entry h b (Some e)) sl ns"
proof -
  have "\<And>j L. links (set_entry h b (Some e)) j L [] = links h j L []"
    by (intro links_cong) simp_all
  then show ?thesis using assms unfolding sl_inv_def by (simp del: links.simps)
qed

lemma sl_inv_trails:
  assumes inv: "sl_inv h sl ns" and ne: "ns \<noteq> []"
    and lc: "length c = maxLevel sl" and lpc: "length pc = maxLevel sl"
    and z: "\<forall>j. level sl \<le> j \<longrightarrow> j < maxLevel sl \<longrightarrow> pc ! j = 0"
  shows "sl_inv h (sl\<lparr>cache := c, posCache := pc\<rparr>) ns"
  using inv ne lc lpc z unfolding sl_inv_def by simp

lemma trail_top_zero:
  assumes inv: "sl_inv h sl ns" and ns: "ns = A @ B"
    and tr: "pc ! level sl + of_nat (gapj h (level sl) A) = (of_nat (length A) :: u64)"
  shows "pc ! level sl = 0"
proof -
  have "\<not> level sl < height h a" if "a \<in> set A" for a
    using sl_inv_elem [OF inv, of a] that ns by simp
  then have "gapj h (level sl) A = length A"
    using lastj_all_low [of A "level sl" h] by blast
  then show ?thesis using tr by simp
qed

lemma search_keeps_inv:
  assumes inv: "sl_inv h sl ns" and ns: "ns = A @ B" and ne: "ns \<noteq> []"
    and lc: "length c = maxLevel sl" and lpc: "length pc = maxLevel sl"
    and tr: "trail_ok h (sl\<lparr>cache := c, posCache := pc\<rparr>) A"
    and rest: "\<forall>j. level sl < j \<longrightarrow> c ! j = cache sl ! j \<and> pc ! j = posCache sl ! j"
  shows "sl_inv h (sl\<lparr>cache := c, posCache := pc\<rparr>) ns"
proof (rule sl_inv_trails [OF inv ne lc lpc], intro allI impI)
  fix j assume j: "level sl \<le> j" "j < maxLevel sl"
  show "pc ! j = 0"
  proof (cases "j = level sl")
    case True
    have "pc ! level sl + of_nat (gapj h (level sl) A) = of_nat (length A)"
      using tr unfolding trail_ok_def by simp
    from trail_top_zero [OF inv ns this] True show ?thesis by simp
  next
    case False
    then have "level sl < j" using j by simp
    then show ?thesis using rest sl_inv_pc [OF inv j] by simp
  qed
qed

lemma sorted_wrt_last_lt:
  assumes "sorted_wrt (<) (xs :: int list)" "xs \<noteq> []" "last xs < k"
  shows "\<forall>x \<in> set xs. x < k"
proof
  fix x assume "x \<in> set xs"
  then obtain i where i: "i < length xs" "xs ! i = x" by (auto simp: in_set_conv_nth)
  have l: "last xs = xs ! (length xs - 1)" using assms(2) by (rule last_conv_nth)
  show "x < k"
  proof (cases "i = length xs - 1")
    case True
    then show ?thesis using l i assms(3) by simp
  next
    case False
    then have "i < length xs - 1" "length xs - 1 < length xs" using i by simp_all
    then have "xs ! i < xs ! (length xs - 1)"
      using sorted_wrt_nth_less [OF assms(1), of i "length xs - 1"] by simp
    then show ?thesis using l i assms(3) by simp
  qed
qed

lemma sorted_wrt_hd_gt:
  "sorted_wrt (<) (xs :: int list) \<Longrightarrow> xs \<noteq> [] \<Longrightarrow> k < hd xs \<Longrightarrow> \<forall>x \<in> set xs. k < x"
  by (cases xs) auto

lemma ordered_insert:
  assumes o: "ordered h (A @ B)"
    and keys: "\<forall>a \<in> set (A @ B). key_of h' a = key_of h a" and kn: "key_of h' nn = k"
    and la: "A \<noteq> [] \<longrightarrow> key_of h (last A) < k" and hb: "B \<noteq> [] \<longrightarrow> k < key_of h (hd B)"
  shows "ordered h' (A @ nn # B)"
proof -
  have m: "map (key_of h') A = map (key_of h) A" "map (key_of h') B = map (key_of h) B"
    using keys by simp_all
  have sA: "sorted_wrt (<) (map (key_of h) A)" and sB: "sorted_wrt (<) (map (key_of h) B)"
    and AB: "\<forall>x \<in> set (map (key_of h) A). \<forall>y \<in> set (map (key_of h) B). x < y"
    using o by (auto simp: ordered_def sorted_wrt_append)
  have 1: "\<forall>x \<in> set (map (key_of h) A). x < k"
  proof (cases "A = []")
    case False
    then have "last (map (key_of h) A) < k" using la by (simp add: last_map)
    then show ?thesis using sorted_wrt_last_lt [OF sA] False by simp
  qed simp
  have 2: "\<forall>x \<in> set (map (key_of h) B). k < x"
  proof (cases "B = []")
    case False
    then have "k < hd (map (key_of h) B)" using hb by (simp add: hd_map)
    then show ?thesis using sorted_wrt_hd_gt [OF sB] False by simp
  qed simp
  show ?thesis
    unfolding ordered_def using sA sB AB 1 2 kn
    by (simp add: sorted_wrt_append m)
qed

lemma key_of_set_entry:
  "key_of (set_entry h b (Some e)) a = (if a = b then fst e else key_of h a)"
  by (simp add: key_of_def)

lemma insertNode_update:
  assumes "entry (cells h b) \<noteq> None" "key_of h b = fst e"
  shows "insertNode draws h sl (Some b) e pos False
           = ret (set_entry h b (Some e), sl, entry (cells h b))"
  unfolding insertNode_def using assms
  by (simp add: node_Compare_ret deref_def)

lemma ordered_set_entry:
  "key_of h b = fst e \<Longrightarrow> ordered (set_entry h b (Some e)) ns = ordered h ns"
proof -
  assume "key_of h b = fst e"
  then have "map (key_of (set_entry h b (Some e))) ns = map (key_of h) ns"
    by (simp add: key_of_set_entry)
  then show ?thesis by (simp only: ordered_def)
qed

text \<open>What the by-key search finds in an ordered list that holds the key.\<close>

lemma ordered_cut_hit:
  assumes o: "ordered h (A @ B)" and b: "b \<in> set (A @ B)" "key_of h b = k"
    and la: "A \<noteq> [] \<longrightarrow> key_of h (last A) < k" and hb: "B \<noteq> [] \<longrightarrow> k \<le> key_of h (hd B)"
  shows "B \<noteq> [] \<and> hd B = b"
proof -
  have sA: "sorted_wrt (<) (map (key_of h) A)" and sB: "sorted_wrt (<) (map (key_of h) B)"
    using o by (auto simp: ordered_def sorted_wrt_append)
  have "b \<notin> set A"
  proof
    assume bA: "b \<in> set A"
    then have "A \<noteq> []" by auto
    then have "last (map (key_of h) A) < k" using la by (simp add: last_map)
    from sorted_wrt_last_lt [OF sA _ this] \<open>A \<noteq> []\<close> bA have "key_of h b < k" by simp
    then show False using b(2) by simp
  qed
  then have bB: "b \<in> set B" using b(1) by simp
  then obtain c B' where B: "B = c # B'" by (cases B) auto
  have "c = b"
  proof (rule ccontr)
    assume "c \<noteq> b"
    then have "b \<in> set B'" using bB B by simp
    then have "key_of h c < key_of h b" using sB B by simp
    then show False using hb B b(2) by simp
  qed
  then show ?thesis using B by simp
qed

lemma insert1_update:
  assumes inv: "sl_inv h sl ns" and o: "ordered h ns" and b: "b \<in> set ns" "key_of h b = fst e"
  shows "\<exists>c pc. insert1 draws h sl e
           = ret (set_entry h b (Some e), sl\<lparr>cache := c, posCache := pc\<rparr>, entry (cells h b)) \<and>
           sl_inv (set_entry h b (Some e)) (sl\<lparr>cache := c, posCache := pc\<rparr>) ns"
proof -
  have ne: "ns \<noteq> []" using b by auto
  from search_post [OF inv ne, of e] obtain A B c pc where
    ns: "ns = A @ B"
    and s: "search h sl e True =
       ret ((case B of [] \<Rightarrow> None | b # _ \<Rightarrow> Some b), of_nat (length A) + 1,
            sl\<lparr>cache := c, posCache := pc\<rparr>)"
    and lc: "length c = maxLevel sl" "length pc = maxLevel sl"
    and tr: "trail_ok h (sl\<lparr>cache := c, posCache := pc\<rparr>) A"
    and rest: "\<forall>j. level sl < j \<longrightarrow> c ! j = cache sl ! j \<and> pc ! j = posCache sl ! j"
    and la: "A \<noteq> [] \<longrightarrow> key_of h (last A) < fst e" and hb: "B \<noteq> [] \<longrightarrow> fst e \<le> key_of h (hd B)"
    by blast
  from ordered_cut_hit [OF o [unfolded ns] b(1) [unfolded ns] b(2) la hb]
  obtain B' where B: "B = b # B'" by (cases B) auto
  have eb: "entry (cells h b) \<noteq> None" using sl_inv_elem [OF inv b(1)] by simp
  have inv': "sl_inv h (sl\<lparr>cache := c, posCache := pc\<rparr>) ns"
    by (rule search_keeps_inv [OF inv ns ne lc tr rest])
  have "insert1 draws h sl e
           = ret (set_entry h b (Some e), sl\<lparr>cache := c, posCache := pc\<rparr>, entry (cells h b))"
    unfolding insert1_def s by (simp add: B insertNode_update [OF eb b(2)])
  then show ?thesis using sl_inv_set_entry [OF inv'] by blast
qed

lemma insert1_inv:
  assumes inv: "sl_inv h sl ns" and len: "Suc (length ns) < 2 ^ 64"
  shows "\<exists>h' sl' r ns'. insert1 draws h sl e = ret (h', sl', r) \<and> sl_inv h' sl' ns' \<and>
          maxLevel sl' = maxLevel sl \<and> head sl' = head sl \<and>
          length ns' \<le> Suc (length ns) \<and> (ordered h ns \<longrightarrow> ordered h' ns')"
proof (cases "ns = []")
  case True
  have s: "search h sl e True = ret (None, 1, sl)"
    using sl_inv_num [OF inv] True by (simp add: search_def)
  have tr: "\<forall>j < level sl. cache sl ! j = Some (lastj h j (head sl) []) \<and>
               posCache sl ! j + of_nat (gapj h j []) = of_nat (length ([] :: addr list))"
    using sl_inv_empty [OF inv [unfolded True]] sl_inv_bounds [OF inv] by simp
  from insertNode_new [OF inv _ tr, of "[]" 1 False None e draws] True len
  obtain h' sl' where
    r: "insertNode draws h sl None e 1 False = ret (h', sl', None)"
    "sl_inv h' sl' [alloc h]" "maxLevel sl' = maxLevel sl" "head sl' = head sl"
    by auto
  have "ordered h' [alloc h]" by (simp add: ordered_def)
  then show ?thesis
    using r True unfolding insert1_def s
    by (intro exI [of _ h'] exI [of _ sl'] exI [of _ None] exI [of _ "[alloc h]"]) simp
next
  case False
  from search_post [OF inv False, of e] obtain A B c pc where
    ns: "ns = A @ B"
    and s: "search h sl e True =
       ret ((case B of [] \<Rightarrow> None | b # _ \<Rightarrow> Some b), of_nat (length A) + 1,
            sl\<lparr>cache := c, posCache := pc\<rparr>)"
    and lc: "length c = maxLevel sl" "length pc = maxLevel sl"
    and tr: "trail_ok h (sl\<lparr>cache := c, posCache := pc\<rparr>) A"
    and rest: "\<forall>j. level sl < j \<longrightarrow> c ! j = cache sl ! j \<and> pc ! j = posCache sl ! j"
    and la: "A \<noteq> [] \<longrightarrow> key_of h (last A) < fst e" and hb: "B \<noteq> [] \<longrightarrow> fst e \<le> key_of h (hd B)"
    by blast
  define sl1 where "sl1 = sl\<lparr>cache := c, posCache := pc\<rparr>"
  define n where "n = (case B of [] \<Rightarrow> None | b # _ \<Rightarrow> Some b)"
  have inv1: "sl_inv h sl1 ns"
    unfolding sl1_def by (rule search_keeps_inv [OF inv ns False lc tr rest])
  have i1: "insert1 draws h sl e = insertNode draws h sl1 n e (of_nat (length A) + 1) False"
    unfolding insert1_def s by (simp add: sl1_def n_def)
  show ?thesis
  proof (cases "B \<noteq> [] \<and> key_of h (hd B) = fst e")
    case True
    then obtain b B' where B: "B = b # B'" and kb: "key_of h b = fst e" by (cases B) auto
    have bin: "b \<in> set ns" using ns B by simp
    have eb: "entry (cells h b) \<noteq> None" using sl_inv_elem [OF inv bin] by simp
    have "insert1 draws h sl e = ret (set_entry h b (Some e), sl1, entry (cells h b))"
      unfolding i1 n_def B by (simp add: insertNode_update [OF eb kb])
    then show ?thesis
      using sl_inv_set_entry [OF inv1, of b e] ordered_set_entry [OF kb, of ns]
      by (intro exI [of _ "set_entry h b (Some e)"] exI [of _ sl1] exI [of _ "entry (cells h b)"]
          exI [of _ ns]) (simp add: sl1_def)
  next
    case F2: False
    have noupd: "False \<or> n = None \<or>
                 (\<exists>a. n = Some a \<and> entry (cells h a) \<noteq> None \<and> key_of h a \<noteq> fst e)"
    proof (cases B)
      case Nil
      then show ?thesis by (simp add: n_def)
    next
      case (Cons b B')
      then have "b \<in> set ns" using ns by simp
      then have "entry (cells h b) \<noteq> None" using sl_inv_elem [OF inv] by simp
      then show ?thesis using F2 Cons by (simp add: n_def)
    qed
    have tr1: "\<forall>j < level sl1. cache sl1 ! j = Some (lastj h j (head sl1) A) \<and>
               posCache sl1 ! j + of_nat (gapj h j A) = of_nat (length A)"
      using tr unfolding trail_ok_def sl1_def by simp
    from insertNode_new [OF inv1 ns tr1 refl len noupd, of draws]
    obtain h' sl' where
      r: "insertNode draws h sl1 n e (of_nat (length A) + 1) False = ret (h', sl', None)"
      "sl_inv h' sl' (A @ alloc h # B)" "maxLevel sl' = maxLevel sl1" "head sl' = head sl1"
      and en: "entry (cells h' (alloc h)) = Some e"
        "\<forall>a. a \<noteq> alloc h \<longrightarrow> entry (cells h' a) = entry (cells h a)"
      by blast
    have fresh: "alloc h \<notin> set (A @ B)" using sl_inv_node [OF inv, of "alloc h"] ns by auto
    have ord: "ordered h' (A @ alloc h # B)" if o: "ordered h ns"
    proof (rule ordered_insert [OF o [unfolded ns]])
      have "entry (cells h' a) = entry (cells h a)" if "a \<in> set (A @ B)" for a
        using en(2) fresh that by metis
      then show "\<forall>a \<in> set (A @ B). key_of h' a = key_of h a"
        by (simp add: key_of_def)
      show "key_of h' (alloc h) = fst e" using en(1) by (simp add: key_of_def)
      show "A \<noteq> [] \<longrightarrow> key_of h (last A) < fst e" by (rule la)
      show "B \<noteq> [] \<longrightarrow> fst e < key_of h (hd B)" using hb F2 by auto
    qed
    show ?thesis
      using r ord ns unfolding i1
      by (intro exI [of _ h'] exI [of _ sl'] exI [of _ None] exI [of _ "A @ alloc h # B"])
        (simp add: sl1_def)
  qed
qed

lemma unlink_step_inv:
  assumes R: "relink_inv ml h1 (hx # A @ b # B) (hx # A @ B) i h'" and iml: "i < ml"
    and dist: "distinct (hx # A @ b # B)"
    and thd: "i < height h1 hx"
    and wl: "\<forall>a \<in> set (hx # A @ b # B). length (widths (cells h1 a)) = height h1 a"
    and ci: "i < length (cache sl)" "cache sl ! i = Some (lastj h1 i hx A)"
  shows "\<exists>h''. unlink_step sl (Some b) i h' = ret h'' \<and>
           relink_inv ml h1 (hx # A @ b # B) (hx # A @ B) (Suc i) h''"
proof -
  have ss: "same_shape h1 h'" and lk: "\<forall>j < ml. if j < i then links h' j (hx # A @ B) []
      else links h' j (hx # A @ b # B) []"
    using R unfolding relink_inv_def by blast+
  have hts: "\<And>a. height h' a = height h1 a"
    and wls: "\<And>a. length (widths (cells h' a)) = length (widths (cells h1 a))"
    using ss by (simp_all add: same_shape_def)
  define x where "x = lastj h1 i hx A"
  obtain P S where PS: "hx # A = P @ x # S" and low: "\<forall>a \<in> set S. \<not> i < height h1 a"
    using lastj_split [of hx A h1 i] unfolding x_def by blast
  have tx: "i < height h1 x" unfolding x_def using thd by (rule lastj_tall)
  have xin: "x \<in> set (hx # A)" unfolding x_def by (rule lastj_in)
  have xb: "x \<noteq> b" using xin dist by auto
  have wx: "length (widths (cells h1 x)) = height h1 x" using wl xin by auto
  have wb: "length (widths (cells h1 b)) = height h1 b" using wl by simp
  have old_eq: "hx # A @ b # B = P @ x # S @ b # B" and new_eq: "hx # A @ B = P @ x # S @ B"
    using PS by (metis append_Cons append_assoc)+
  have "links h' i (hx # A @ b # B) []" using lk [rule_format, of i] iml by simp
  then have oldl: "links h' i (P @ x # S @ b # B) []" unfolding old_eq .
  have lx: "link h' i x (S @ b # B)" using links_at [OF oldl] tx hts by simp
  have low': "\<forall>a \<in> set S. \<not> i < height h' a" using low hts by simp
  define f where "f = fwd h' x i"
  have ftall: "f = Some b" if "i < height h1 b"
  proof -
    have "nxt h' i (S @ b # B) = Some (length S + 1, b)"
      using low' that hts by (simp add: nxt_low_prefix)
    then show ?thesis using lx by (simp add: link_def f_def)
  qed
  have fshort: "f \<noteq> Some b" if "\<not> i < height h1 b"
  proof
    assume fb: "f = Some b"
    then obtain d where "nxt h' i (S @ b # B) = Some (d, b)"
      using lx by (auto simp: link_def f_def split: option.splits)
    from nxt_Some_split [OF this] show False using that hts by simp
  qed
  define h'' where "h'' =
     (if i < height h1 b
      then upd_fwd (upd_wid h' x i (wid h' x i + (wid h' b i - 1))) x i (fwd h' b i)
      else if f \<noteq> None then upd_wid h' x i (wid h' x i - 1) else h')"
  have step: "unlink_step sl (Some b) i h' = ret h''"
  proof (cases "i < height h1 b")
    case True
    show ?thesis
      unfolding unlink_step_def h''_def
      using ci tx wx wb True ftall [OF True] xb
      by (simp add: at_def x_def [symmetric] get_forward_ret set_forward_ret get_width_ret
          set_width_ret hts wls f_def [symmetric])
  next
    case False
    show ?thesis
      unfolding unlink_step_def h''_def
      using ci tx wx False fshort [OF False]
      by (simp add: at_def x_def [symmetric] get_forward_ret get_width_ret
          set_width_ret hts wls f_def [symmetric])
  qed
  have ss'': "same_shape h1 h''"
    unfolding h''_def using ss by (simp add: same_shape_upd_wid same_shape_upd_fwd)
  have hts'': "\<forall>a. height h'' a = height h' a" unfolding h''_def by simp
  have other: "\<And>a j. a \<noteq> x \<or> j \<noteq> i \<Longrightarrow> fwd h'' a j = fwd h' a j \<and> wid h'' a j = wid h' a j"
    unfolding h''_def using tx wx by (auto simp: fwd_upd_fwd wid_upd_wid wls hts)
  have new_i: "links h'' i (P @ x # S @ B) []"
  proof (rule unlink_links [OF oldl])
    show "i < height h' x" using tx hts by simp
    show "\<forall>a \<in> set S. \<not> i < height h' a" by (rule low')
    show "distinct (P @ x # S @ b # B)" using dist unfolding old_eq .
    show "\<forall>a. height h'' a = height h' a" by (rule hts'')
    show "\<forall>a. a \<noteq> x \<longrightarrow> fwd h'' a i = fwd h' a i \<and> wid h'' a i = wid h' a i"
      using other by simp
    show "i < height h' b \<longrightarrow> fwd h'' x i = fwd h' b i \<and>
            (fwd h' b i \<noteq> None \<longrightarrow> wid h'' x i = wid h' x i + (wid h' b i - 1))"
      unfolding h''_def using tx wx xb by (simp add: hts fwd_upd_fwd wid_upd_wid wls)
    show "\<not> i < height h' b \<longrightarrow> fwd h'' x i = fwd h' x i \<and>
            (fwd h' x i \<noteq> None \<longrightarrow> wid h'' x i = wid h' x i - 1)"
      unfolding h''_def using tx wx by (simp add: hts wid_upd_wid wls f_def)
  qed
  have "relink_inv ml h1 (hx # A @ b # B) (hx # A @ B) (Suc i) h''"
    unfolding relink_inv_def
  proof (intro conjI allI impI)
    show "same_shape h1 h''" by (rule ss'')
  next
    fix j assume j: "j < ml"
    show "if j < Suc i then links h'' j (hx # A @ B) [] else links h'' j (hx # A @ b # B) []"
    proof (cases "j = i")
      case True
      then show ?thesis using new_i unfolding new_eq by simp
    next
      case False
      have "\<And>L. links h'' j L [] = links h' j L []"
        using hts'' False other by (intro links_other_level) simp_all
      then show ?thesis using lk [rule_format, OF j] False
        by (simp add: less_Suc_eq del: links.simps)
    qed
  qed
  with step show ?thesis by blast
qed

lemma sl_inv_heap:
  assumes "sl_inv h sl ns" "same_shape h h'" "\<forall>j < maxLevel sl. links h' j (head sl # ns) []"
  shows "sl_inv h' sl ns"
  using assms unfolding sl_inv_def same_shape_def by (simp del: links.simps)

lemma sl_inv_level:
  assumes "sl_inv h sl ns" "L < maxLevel sl" "\<forall>a \<in> set ns. height h a \<le> L"
    "\<forall>j. L \<le> j \<longrightarrow> j < maxLevel sl \<longrightarrow> posCache sl ! j = 0"
    "ns = [] \<longrightarrow> (\<forall>j < L. cache sl ! j = Some (head sl))"
  shows "sl_inv h (sl\<lparr>level := L\<rparr>) ns"
  using assms unfolding sl_inv_def by (simp del: links.simps)

lemma link_None_no_tall:
  "link h j x R \<Longrightarrow> fwd h x j = None \<Longrightarrow> \<forall>a \<in> set R. \<not> j < height h a"
  by (auto simp: link_def nxt_None_iff [symmetric] split: option.splits)

lemma shrink_step_inv:
  assumes inv: "sl_inv h' sl' ns"
    and z: "\<forall>j < level sl'. (\<forall>a \<in> set ns. \<not> j < height h' a) \<longrightarrow> posCache sl' ! j = 0"
  shows "\<exists>h'' sl''. shrink_step k (h', sl') = ret (h'', sl'') \<and> sl_inv h'' sl'' ns \<and>
           same_shape h' h'' \<and> level sl'' \<le> level sl' \<and> sl'' = sl'\<lparr>level := level sl''\<rparr>"
proof (cases "level sl' > 1 \<and> fwd h' (head sl') (level sl' - 1) = None")
  case False
  have b: "level sl' < maxLevel sl'" "height h' (head sl') = maxLevel sl'"
    using sl_inv_bounds [OF inv] by simp_all
  have "shrink_step k (h', sl') = ret (h', sl')"
    unfolding shrink_step_def using False b by (auto simp: get_forward_ret)
  then show ?thesis using inv by (intro exI [of _ h'] exI [of _ sl']) simp
next
  case True
  define l where "l = level sl'"
  define hx where "hx = head sl'"
  have l1: "1 < l" and fN: "fwd h' hx (l - 1) = None" using True by (simp_all add: l_def hx_def)
  have b: "l < maxLevel sl'" "height h' hx = maxLevel sl'"
    using sl_inv_bounds [OF inv] by (simp_all add: l_def hx_def)
  have wh: "length (widths (cells h' hx)) = maxLevel sl'"
    using sl_inv_node [OF inv, of hx] b by (simp add: hx_def)
  define h'' where "h'' = upd_wid h' hx l 0"
  have step: "shrink_step k (h', sl') = ret (h'', sl'\<lparr>level := l - 1\<rparr>)"
    unfolding shrink_step_def h''_def
    using l1 fN b wh
    by (simp add: l_def [symmetric] hx_def [symmetric] get_forward_ret set_width_ret)
  have ss: "same_shape h' h''" unfolding h''_def by (simp add: same_shape_upd_wid)
  have "link h' (l - 1) hx ns"
    using sl_inv_links [OF inv, of "l - 1"] b l1 by (simp add: hx_def)
  from link_None_no_tall [OF this fN]
  have low: "\<forall>a \<in> set ns. \<not> l - 1 < height h' a" .
  have lowl: "\<forall>a \<in> set ns. \<not> l < height h' a"
  proof
    fix a assume "a \<in> set ns"
    then show "\<not> l < height h' a" using sl_inv_elem [OF inv, of a] by (simp add: l_def)
  qed
  have links'': "\<forall>j < maxLevel sl'. links h'' j (head sl' # ns) []"
  proof (intro allI impI)
    fix j assume j: "j < maxLevel sl'"
    show "links h'' j (head sl' # ns) []"
    proof (cases "j = l")
      case True
      have "links h' l (hx # ns) []" using sl_inv_links [OF inv, of l] b by (simp add: hx_def)
      moreover have "\<forall>a \<in> set ns. \<not> l < height h'' a" using lowl by (simp add: h''_def)
      ultimately show ?thesis
        using links_head_only [OF lowl, of hx] links_head_only [of ns l h'' hx] True
        by (simp add: hx_def h''_def del: links.simps)
    next
      case False
      have "links h'' j (head sl' # ns) [] = links h' j (head sl' # ns) []"
        unfolding h''_def using False wh b by (intro links_other_level) (auto simp: wid_upd_wid)
      then show ?thesis using sl_inv_links [OF inv j] by simp
    qed
  qed
  have inv1: "sl_inv h'' sl' ns" by (rule sl_inv_heap [OF inv ss links''])
  have inv2: "sl_inv h'' (sl'\<lparr>level := l - 1\<rparr>) ns"
  proof (rule sl_inv_level [OF inv1])
    show "l - 1 < maxLevel sl'" using b by simp
    show "\<forall>a \<in> set ns. height h'' a \<le> l - 1"
      using low by (auto simp: h''_def not_less)
    show "\<forall>j. l - 1 \<le> j \<longrightarrow> j < maxLevel sl' \<longrightarrow> posCache sl' ! j = 0"
    proof (intro allI impI)
      fix j assume j: "l - 1 \<le> j" "j < maxLevel sl'"
      show "posCache sl' ! j = 0"
      proof (cases "j = l - 1")
        case True
        then show ?thesis using z [rule_format, of "l - 1"] low l1 by (simp add: l_def)
      next
        case False
        then have "level sl' \<le> j" using j by (simp add: l_def)
        then show ?thesis using sl_inv_pc [OF inv _ j(2)] by simp
      qed
    qed
    show "ns = [] \<longrightarrow> (\<forall>j < l - 1. cache sl' ! j = Some (head sl'))"
    proof
      assume e: "ns = []"
      show "\<forall>j < l - 1. cache sl' ! j = Some (head sl')"
        using sl_inv_empty [OF inv [unfolded e]] b by (auto simp: l_def)
    qed
  qed
  show ?thesis
    using step inv2 ss l1
    by (intro exI [of _ h''] exI [of _ "sl'\<lparr>level := l - 1\<rparr>"]) (simp add: l_def)
qed

lemma same_shape_trans: "same_shape h h' \<Longrightarrow> same_shape h' h'' \<Longrightarrow> same_shape h h''"
  by (simp add: same_shape_def)

lemma shrink_loop:
  assumes inv: "sl_inv h sl ns"
    and z: "\<forall>j < level sl. (\<forall>a \<in> set ns. \<not> j < height h a) \<longrightarrow> posCache sl ! j = 0"
  shows "\<exists>h' sl'. for_levels shrink_step [0..<n] (h, sl) = ret (h', sl') \<and> sl_inv h' sl' ns \<and>
           same_shape h h' \<and> maxLevel sl' = maxLevel sl \<and> head sl' = head sl"
proof -
  define Q where "Q k st \<longleftrightarrow> (case st of (h', sl') \<Rightarrow> sl_inv h' sl' ns \<and> same_shape h h' \<and>
      level sl' \<le> level sl \<and> sl' = sl\<lparr>level := level sl'\<rparr>)" for k :: nat and st
  have init: "Q 0 (h, sl)" unfolding Q_def using inv by simp
  have "\<exists>st'. for_levels shrink_step [0..<n] (h, sl) = ret st' \<and> Q n st'"
  proof (rule for_levels_up [where Q = Q, OF init])
    show "0 \<le> n" by simp
  next
    fix k st assume Qk: "Q k st"
    obtain h' sl' where st: "st = (h', sl')" by (cases st)
    have i': "sl_inv h' sl' ns" and ss: "same_shape h h'" and le: "level sl' \<le> level sl"
      and eq: "sl' = sl\<lparr>level := level sl'\<rparr>"
      using Qk unfolding Q_def st by simp_all
    have pc: "posCache sl' = posCache sl" by (subst eq) simp
    have hts: "\<And>a. height h' a = height h a" using ss by (simp add: same_shape_def)
    have z': "\<forall>j < level sl'. (\<forall>a \<in> set ns. \<not> j < height h' a) \<longrightarrow> posCache sl' ! j = 0"
      using z le by (simp add: pc hts)
    from shrink_step_inv [OF i' z', of k] obtain h'' sl'' where
      r: "shrink_step k (h', sl') = ret (h'', sl'')" "sl_inv h'' sl'' ns" "same_shape h' h''"
      "level sl'' \<le> level sl'" "sl'' = sl'\<lparr>level := level sl''\<rparr>"
      by blast
    have "sl'' = sl\<lparr>level := level sl''\<rparr>" by (subst r(5), subst eq) simp
    then have "Q (Suc k) (h'', sl'')"
      unfolding Q_def using r(2,4) le same_shape_trans [OF ss r(3)] by simp
    then show "\<exists>s'. shrink_step k st = ret s' \<and> Q (Suc k) s'" using r(1) st by blast
  qed
  then obtain h' sl' where r: "for_levels shrink_step [0..<n] (h, sl) = ret (h', sl')"
    and q: "Q n (h', sl')" by auto
  have "sl' = sl\<lparr>level := level sl'\<rparr>" using q unfolding Q_def by simp
  then have "maxLevel sl' = maxLevel sl \<and> head sl' = head sl"
    by (metis SkipList.select_convs(1,3) SkipList.surjective SkipList.update_convs(2))
  then show ?thesis using r q unfolding Q_def by auto
qed

lemma same_shape_key: "same_shape h h' \<Longrightarrow> key_of h' a = key_of h a"
  by (simp add: same_shape_def key_of_def)

lemma ordered_same_shape: "same_shape h h' \<Longrightarrow> ordered h' ns = ordered h ns"
proof -
  assume "same_shape h h'"
  then have "key_of h' = key_of h" by (intro ext) (rule same_shape_key)
  then show ?thesis by (simp only: ordered_def)
qed

lemma ordered_remove: "ordered h (A @ b # B) \<Longrightarrow> ordered h (A @ B)"
  by (auto simp: ordered_def sorted_wrt_append)

lemma delete1_hit:
  assumes inv: "sl_inv h sl ns" and ns: "ns = A @ b # B"
    and tr: "trail_ok h sl A"
    and kb: "key_of h b = fst e"
  shows "\<exists>h' sl'. 
          bnd (for_levels (unlink_step (sl\<lparr>num := num sl - 1\<rparr>) (Some b)) [0..<Suc (level sl)] h) (\<lambda>h1.
            bnd (for_levels shrink_step [0..<level sl] (h1, sl\<lparr>num := num sl - 1\<rparr>)) (\<lambda>(h2, sl3).
            bnd (deref h2 (Some b)) (\<lambda>nd. ret (h2, sl3, entry nd))))
            = ret (h', sl', entry (cells h b)) \<and>
          sl_inv h' sl' (A @ B) \<and> same_shape h h' \<and>
          maxLevel sl' = maxLevel sl \<and> head sl' = head sl"
proof -
  define ml where "ml = maxLevel sl"
  define hx where "hx = head sl"
  define L where "L = level sl"
  define sl2 where "sl2 = sl\<lparr>num := num sl - 1\<rparr>"
  note b = sl_inv_bounds [OF inv, folded ml_def hx_def L_def]
  have sl2: "maxLevel sl2 = ml" "head sl2 = hx" "level sl2 = L" "cache sl2 = cache sl"
    "posCache sl2 = posCache sl" "num sl2 = num sl - 1"
    by (simp_all add: sl2_def ml_def hx_def L_def)
  let ?old = "hx # A @ b # B" and ?new = "hx # A @ B"
  have dist: "distinct ?old" using sl_inv_distinct [OF inv] ns by (simp add: hx_def)
  have wl: "\<forall>a \<in> set ?old. length (widths (cells h a)) = height h a"
    using sl_inv_node [OF inv] ns by (simp add: hx_def)
  have init: "relink_inv ml h ?old ?new 0 h"
    unfolding relink_inv_def using sl_inv_links [OF inv] ns
    by (simp add: ml_def hx_def del: links.simps)
  have "\<exists>h1. for_levels (unlink_step sl2 (Some b)) [0..<Suc L] h = ret h1 \<and>
          relink_inv ml h ?old ?new (Suc L) h1"
  proof (rule for_levels_up [where Q = "relink_inv ml h ?old ?new", OF init])
    show "0 \<le> Suc L" by simp
  next
    fix i h' assume i: "0 \<le> i" "i < Suc L" and R: "relink_inv ml h ?old ?new i h'"
    show "\<exists>h''. unlink_step sl2 (Some b) i h' = ret h'' \<and> relink_inv ml h ?old ?new (Suc i) h''"
    proof (rule unlink_step_inv [OF R _ dist _ wl])
      show "i < ml" using i b by simp
      show "i < height h hx" using i b by simp
      show "i < length (cache sl2)" using i b sl2 by simp
      show "cache sl2 ! i = Some (lastj h i hx A)"
        using tr i unfolding trail_ok_def by (simp add: sl2 hx_def L_def)
    qed
  qed
  then obtain h1 where ul: "for_levels (unlink_step sl2 (Some b)) [0..<Suc L] h = ret h1"
    and R1: "relink_inv ml h ?old ?new (Suc L) h1" by blast
  have ss1: "same_shape h h1"
    and lk1: "\<forall>j < ml. if j < Suc L then links h1 j ?new [] else links h1 j ?old []"
    using R1 unfolding relink_inv_def by blast+
  have ht1: "\<And>a. height h1 a = height h a"
    and wl1: "\<And>a. length (widths (cells h1 a)) = length (widths (cells h a))"
    and en1: "\<And>a. entry (cells h1 a) = entry (cells h a)"
    and al1: "alloc h1 = alloc h"
    using ss1 by (simp_all add: same_shape_def)
  have el: "\<And>a. a \<in> set ns \<Longrightarrow> 1 \<le> height h a \<and> height h a \<le> L \<and> entry (cells h a) \<noteq> None"
    using sl_inv_elem [OF inv] by (simp add: L_def)
  have links1: "links h1 j ?new []" if j: "j < ml" for j
  proof (cases "j < Suc L")
    case True
    then show ?thesis using lk1 [rule_format, OF j] by simp
  next
    case False
    then have o: "links h1 j ?old []" using lk1 [rule_format, OF j] by simp
    have lo: "\<forall>a \<in> set (A @ b # B). \<not> j < height h1 a"
    proof
      fix a assume "a \<in> set (A @ b # B)"
      then have "height h a \<le> L" using el [of a] ns by simp
      then show "\<not> j < height h1 a" using False by (simp add: ht1)
    qed
    then have lo': "\<forall>a \<in> set (A @ B). \<not> j < height h1 a" by auto
    show ?thesis
      using o unfolding links_head_only [OF lo] links_head_only [OF lo'] .
  qed
  have trj: "cache sl ! j = Some (lastj h j hx A) \<and>
               posCache sl ! j + of_nat (gapj h j A) = of_nat (length A)" if "j \<le> L" for j
    using tr that unfolding trail_ok_def by (simp add: hx_def L_def)
  have nm: "num sl = of_nat (Suc (length (A @ B)))" and lns: "Suc (length (A @ B)) < 2 ^ 64"
    using sl_inv_num [OF inv] ns by simp_all
  have inv1: "sl_inv h1 sl2 (A @ B)"
    unfolding sl_inv_def sl2
  proof (intro conjI)
    show "2 \<le> ml" "ml \<le> 255" "L < ml" "length (cache sl) = ml" "length (posCache sl) = ml"
      using b by simp_all
    show "distinct (hx # A @ B)" using dist by simp
    show "\<forall>a \<in> set (hx # A @ B). a < alloc h1 \<and> length (widths (cells h1 a)) = height h1 a"
    proof
      fix a assume "a \<in> set (hx # A @ B)"
      then have "a \<in> set (head sl # ns)" using ns by (auto simp: hx_def)
      from sl_inv_node [OF inv this] show "a < alloc h1 \<and> length (widths (cells h1 a)) = height h1 a"
        by (simp add: al1 wl1 ht1)
    qed
    show "height h1 hx = ml" using b by (simp add: ht1)
    show "\<forall>a \<in> set (A @ B). 1 \<le> height h1 a \<and> height h1 a \<le> L \<and> entry (cells h1 a) \<noteq> None"
    proof
      fix a assume "a \<in> set (A @ B)"
      then have "a \<in> set ns" using ns by auto
      from el [OF this] show "1 \<le> height h1 a \<and> height h1 a \<le> L \<and> entry (cells h1 a) \<noteq> None"
        by (simp add: ht1 en1)
    qed
    show "\<forall>j < ml. links h1 j (hx # A @ B) []" using links1 by blast
    show "num sl - 1 = of_nat (length (A @ B))" unfolding nm by simp
    show "length (A @ B) < 2 ^ 64" using lns by simp
    show "\<forall>j. L \<le> j \<longrightarrow> j < ml \<longrightarrow> posCache sl ! j = 0"
      using sl_inv_pc [OF inv] by (simp add: L_def ml_def)
    show "A @ B = [] \<longrightarrow> (\<forall>j < ml. posCache sl ! j = 0) \<and> (\<forall>j < L. cache sl ! j = Some hx)"
    proof
      assume e: "A @ B = []"
      have "posCache sl ! j = 0" if "j < ml" for j
      proof (cases "j \<le> L")
        case True
        then show ?thesis using trj [OF True] e by simp
      next
        case False
        then show ?thesis using sl_inv_pc [OF inv, of j] that by (simp add: L_def ml_def)
      qed
      moreover have "cache sl ! j = Some hx" if "j < L" for j
        using trj [of j] that e by simp
      ultimately show "(\<forall>j < ml. posCache sl ! j = 0) \<and> (\<forall>j < L. cache sl ! j = Some hx)"
        by blast
    qed
  qed
  have z: "\<forall>j < level sl2. (\<forall>a \<in> set (A @ B). \<not> j < height h1 a) \<longrightarrow> posCache sl2 ! j = 0"
  proof (intro allI impI)
    fix j assume j: "j < level sl2" and lo: "\<forall>a \<in> set (A @ B). \<not> j < height h1 a"
    then have "\<forall>a \<in> set A. \<not> j < height h a" by (simp add: ht1)
    from lastj_all_low [OF this] have "gapj h j A = length A" by simp
    then show "posCache sl2 ! j = 0" using trj [of j] j by (simp add: sl2)
  qed
  from shrink_loop [OF inv1 z, of L] obtain h2 sl3 where
    sh: "for_levels shrink_step [0..<L] (h1, sl2) = ret (h2, sl3)" and inv3: "sl_inv h2 sl3 (A @ B)"
    and ss2: "same_shape h1 h2" and m3: "maxLevel sl3 = maxLevel sl2" "head sl3 = head sl2"
    by blast
  have ss: "same_shape h h2" by (rule same_shape_trans [OF ss1 ss2])
  then have en2: "entry (cells h2 b) = entry (cells h b)" by (simp add: same_shape_def)
  have "bnd (for_levels (unlink_step sl2 (Some b)) [0..<Suc L] h) (\<lambda>h1.
            bnd (for_levels shrink_step [0..<L] (h1, sl2)) (\<lambda>(h2, sl3).
            bnd (deref h2 (Some b)) (\<lambda>nd. ret (h2, sl3, entry nd))))
            = ret (h2, sl3, entry (cells h b))"
    unfolding ul by (simp add: sh deref_def en2)
  then show ?thesis
    using inv3 ss m3 sl2(1,2)
    unfolding sl2_def L_def ml_def hx_def
    by (intro exI [of _ h2] exI [of _ sl3]) simp
qed

lemma delete1_inv:
  assumes inv: "sl_inv h sl ns"
  shows "\<exists>h' sl' r ns'. delete1 h sl e = ret (h', sl', r) \<and> sl_inv h' sl' ns' \<and>
          maxLevel sl' = maxLevel sl \<and> head sl' = head sl \<and>
          length ns' \<le> length ns \<and> (ordered h ns \<longrightarrow> ordered h' ns')"
proof (cases "ns = []")
  case True
  have s: "search h sl e True = ret (None, 1, sl)"
    using sl_inv_num [OF inv] True by (simp add: search_def)
  have "delete1 h sl e = ret (h, sl, None)" unfolding delete1_def s by simp
  then show ?thesis using inv by (intro exI [of _ h] exI [of _ sl] exI [of _ None] exI [of _ ns]) simp
next
  case False
  from search_post [OF inv False, of e] obtain A B c pc where
    ns: "ns = A @ B"
    and s: "search h sl e True =
       ret ((case B of [] \<Rightarrow> None | b # _ \<Rightarrow> Some b), of_nat (length A) + 1,
            sl\<lparr>cache := c, posCache := pc\<rparr>)"
    and lc: "length c = maxLevel sl" "length pc = maxLevel sl"
    and tr: "trail_ok h (sl\<lparr>cache := c, posCache := pc\<rparr>) A"
    and rest: "\<forall>j. level sl < j \<longrightarrow> c ! j = cache sl ! j \<and> pc ! j = posCache sl ! j"
    by blast
  define sl1 where "sl1 = sl\<lparr>cache := c, posCache := pc\<rparr>"
  have inv1: "sl_inv h sl1 ns"
    unfolding sl1_def by (rule search_keeps_inv [OF inv ns False lc tr rest])
  have m1: "maxLevel sl1 = maxLevel sl" "head sl1 = head sl" by (simp_all add: sl1_def)
  show ?thesis
  proof (cases "B \<noteq> [] \<and> key_of h (hd B) = fst e")
    case hit: True
    then obtain b B' where B: "B = b # B'" and kb: "key_of h b = fst e" by (cases B) auto
    have bin: "b \<in> set ns" using ns B by simp
    have eb: "entry (cells h b) \<noteq> None" using sl_inv_elem [OF inv bin] by simp
    from delete1_hit [OF inv1 ns [unfolded B] tr [folded sl1_def] kb] obtain h' sl' where
      r: "bnd (for_levels (unlink_step (sl1\<lparr>num := num sl1 - 1\<rparr>) (Some b)) [0..<Suc (level sl1)] h) (\<lambda>h1.
            bnd (for_levels shrink_step [0..<level sl1] (h1, sl1\<lparr>num := num sl1 - 1\<rparr>)) (\<lambda>(h2, sl3).
            bnd (deref h2 (Some b)) (\<lambda>nd. ret (h2, sl3, entry nd))))
            = ret (h', sl', entry (cells h b))"
      and i': "sl_inv h' sl' (A @ B')" and ss: "same_shape h h'"
      and m: "maxLevel sl' = maxLevel sl1" "head sl' = head sl1"
      by blast
    have "delete1 h sl e = ret (h', sl', entry (cells h b))"
      unfolding delete1_def s
      using r kb by (simp add: B node_Compare_ret [OF eb] Let_def sl1_def)
    moreover have "ordered h ns \<longrightarrow> ordered h' (A @ B')"
      using ordered_remove [of h A b B'] ordered_same_shape [OF ss] ns B by simp
    ultimately show ?thesis
      using i' m m1 ns B
      by (intro exI [of _ h'] exI [of _ sl'] exI [of _ "entry (cells h b)"] exI [of _ "A @ B'"]) simp
  next
    case miss: False
    have "(if (case B of [] \<Rightarrow> None | b # x \<Rightarrow> Some b) = None then ret True
           else bnd (node_Compare h (case B of [] \<Rightarrow> None | b # x \<Rightarrow> Some b) e) (\<lambda>c. ret (c \<noteq> 0)))
          = ret True"
    proof (cases B)
      case Nil
      then show ?thesis by simp
    next
      case (Cons b B')
      then have "b \<in> set ns" using ns by simp
      then have "entry (cells h b) \<noteq> None" using sl_inv_elem [OF inv] by simp
      then show ?thesis using miss Cons by (simp add: node_Compare_ret)
    qed
    then have "delete1 h sl e = ret (h, sl1, None)"
      unfolding delete1_def s by (simp add: sl1_def)
    then show ?thesis
      using inv1 m1 by (intro exI [of _ h] exI [of _ sl1] exI [of _ None] exI [of _ ns]) simp
  qed
qed

lemma walk0_chain:
  assumes "links h 0 (x # R) []" "\<forall>a \<in> set (x # R). 0 < height h a"
  shows "walk0 h (fwd h x 0) = Some R"
  using assms
proof (induction R arbitrary: x)
  case Nil
  then have "fwd h x 0 = None" by (simp add: link_def)
  then show ?case by (subst walk0.simps) simp
next
  case (Cons y R)
  have f: "fwd h x 0 = Some y" using Cons.prems by (simp add: link_def)
  have "walk0 h (fwd h y 0) = Some R" using Cons.prems by (intro Cons.IH) auto
  moreover have "0 < length (forward (cells h y))" using Cons.prems(2) by (simp add: height_def)
  then obtain g gs where g: "forward (cells h y) = g # gs" by (cases "forward (cells h y)") auto
  ultimately have "walk0 h (Some y) = Some (y # R)"
    by (subst walk0.simps) (simp add: g fwd_def)
  then show ?case using f by simp
qed

lemma sl_inv_level0:
  assumes inv: "sl_inv h sl ns"
  shows "level0 h sl = Some ns"
proof -
  have t: "\<forall>a \<in> set (head sl # ns). 0 < height h a"
    using sl_inv_tall0 [OF inv] by blast
  have l: "links h 0 (head sl # ns) []" using sl_inv_links [OF inv, of 0] sl_inv_bounds [OF inv] by simp
  have "0 < length (forward (cells h (head sl)))" using t by (simp add: height_def)
  then obtain g gs where g: "forward (cells h (head sl)) = g # gs"
    by (cases "forward (cells h (head sl))") auto
  show ?thesis
    using walk0_chain [OF l t] by (simp add: level0_def g fwd_def)
qed

lemma sl_inv_New:
  assumes "t \<noteq> TOther" "New h0 t = (h, sl)"
  shows "sl_inv h sl []"
proof -
  have ml: "maxLevel_of t \<in> {8, 16, 32, 64}" using assms(1) by (cases t) (simp_all add: maxLevel_of_def)
  have h: "h = fst (newNode h0 None (maxLevel_of t))"
    and sl: "sl = \<lparr>maxLevel = maxLevel_of t, level = 0, head = alloc h0, num = 0,
              cache = replicate (maxLevel_of t) None, posCache = replicate (maxLevel_of t) 0\<rparr>"
    using assms(2) by (auto simp: New_def init_def newNode_def)
  have hh: "height h (alloc h0) = maxLevel_of t" "length (widths (cells h (alloc h0))) = maxLevel_of t"
    "alloc h = Suc (alloc h0)" "\<And>j. j < maxLevel_of t \<Longrightarrow> fwd h (alloc h0) j = None"
    unfolding h by (simp_all add: newNode_def height_def fwd_def)
  show ?thesis
    unfolding sl_inv_def sl using ml hh by (auto simp: link_def)
qed

lemma apply_op_by_key_inv:
  assumes inv: "sl_inv h sl ns" and o: "ordered h ns" and k: "by_key x"
    and len: "Suc (length ns) < 2 ^ 64"
  shows "\<exists>h' sl' ns'. apply_op x (h, sl) = ret (h', sl') \<and> sl_inv h' sl' ns' \<and> ordered h' ns' \<and>
           length ns' \<le> Suc (length ns)"
proof (cases x)
  case (OpInsert d e)
  from insert1_inv [OF inv len, of d e] o obtain h' sl' r ns' where
    "insert1 d h sl e = ret (h', sl', r)" "sl_inv h' sl' ns'" "length ns' \<le> Suc (length ns)"
    "ordered h' ns'" by blast
  then show ?thesis unfolding apply_op_def OpInsert by (intro exI [of _ h'] exI [of _ sl'] exI [of _ ns']) simp
next
  case (OpInsertAtPosition d p e)
  then show ?thesis using k by (simp add: by_key_def)
next
  case (OpDelete e)
  from delete1_inv [OF inv, of e] o obtain h' sl' r ns' where
    "delete1 h sl e = ret (h', sl', r)" "sl_inv h' sl' ns'" "length ns' \<le> length ns"
    "ordered h' ns'" by blast
  then show ?thesis unfolding apply_op_def OpDelete by (intro exI [of _ h'] exI [of _ sl'] exI [of _ ns']) simp
qed

lemma run_by_key_inv:
  assumes "sl_inv h sl ns" "ordered h ns" "\<forall>x \<in> set ops. by_key x"
    "length ns + length ops < 2 ^ 64"
  shows "\<exists>h' sl' ns'. run ops (h, sl) = ret (h', sl') \<and> sl_inv h' sl' ns' \<and> ordered h' ns'"
  using assms
proof (induction ops arbitrary: h sl ns)
  case Nil
  then show ?case by auto
next
  case (Cons x ops)
  have len: "Suc (length ns) < 2 ^ 64" using Cons.prems(4) by simp
  have k: "by_key x" using Cons.prems(3) by simp
  from apply_op_by_key_inv [OF Cons.prems(1,2) k len] obtain h1 sl1 ns1 where
    a: "apply_op x (h, sl) = ret (h1, sl1)" "sl_inv h1 sl1 ns1" "ordered h1 ns1"
    "length ns1 \<le> Suc (length ns)" by blast
  have "\<exists>h' sl' ns'. run ops (h1, sl1) = ret (h', sl') \<and> sl_inv h' sl' ns' \<and> ordered h' ns'"
    using a(2,3,4) Cons.prems(3,4) by (intro Cons.IH) auto
  then show ?case using a(1) by simp
qed

subsection \<open>What a split does to the two handles\<close>

lemma searchByPosition_fields:
  assumes "searchByPosition h sl p upd = ret (n, pos, sl1)"
  shows "num sl1 = num sl" "level sl1 = level sl" "maxLevel sl1 = maxLevel sl" "head sl1 = head sl"
  using assms unfolding searchByPosition_def
  by (auto simp: bnd_eq_ret split: if_splits prod.splits)

lemma resetMaxLevel_step_fields:
  assumes "resetMaxLevel_step h k sl = ret sl'"
  shows "num sl' = num sl \<and> maxLevel sl' = maxLevel sl \<and> head sl' = head sl"
  using assms unfolding resetMaxLevel_step_def
  by (auto simp: bnd_eq_ret split: if_splits)

lemma resetMaxLevel_fields:
  assumes "resetMaxLevel h sl = ret sl'"
  shows "num sl' = num sl" "maxLevel sl' = maxLevel sl" "head sl' = head sl"
proof -
  have "num sl' = num sl \<and> maxLevel sl' = maxLevel sl \<and> head sl' = head sl"
  proof (cases "level sl < 1")
    case True
    then show ?thesis using assms by (auto simp: resetMaxLevel_def)
  next
    case False
    then have loop: "for_levels (resetMaxLevel_step h) [0..<level sl] sl = ret sl'"
      using assms by (simp add: resetMaxLevel_def)
    show ?thesis
    proof (rule for_levels_up_partial
        [where Q = "\<lambda>k s. num s = num sl \<and> maxLevel s = maxLevel sl \<and> head s = head sl", OF loop])
      show "num sl = num sl \<and> maxLevel sl = maxLevel sl \<and> head sl = head sl" by simp
      show "0 \<le> level sl" by simp
    next
      fix k s s'
      assume "num s = num sl \<and> maxLevel s = maxLevel sl \<and> head s = head sl"
        and "resetMaxLevel_step h k s = ret s'"
      then show "num s' = num sl \<and> maxLevel s' = maxLevel sl \<and> head s' = head sl"
        using resetMaxLevel_step_fields [of h k s s'] by simp
    qed
  qed
  then show "num sl' = num sl" "maxLevel sl' = maxLevel sl" "head sl' = head sl" by simp_all
qed

lemma set_forward_alloc:
  assumes "set_forward h n i f = ret h1" shows "alloc h1 = alloc h"
  using assms by (auto simp: set_forward_def bnd_def deref_def put_def ret_def panic_def split: option.splits if_splits)

lemma set_width_alloc:
  assumes "set_width h n i w = ret h1" shows "alloc h1 = alloc h"
  using assms by (auto simp: set_width_def bnd_def deref_def put_def ret_def panic_def split: option.splits if_splits)

lemma split_step_alloc:
  assumes "split_step sl rh index i h = ret h1" shows "alloc h1 = alloc h"
  using assms unfolding split_step_def
  by (auto simp: bnd_eq_ret dest!: set_forward_alloc set_width_alloc split: if_splits)

lemma splitAt_fields:
  assumes "splitAt h sl i = ret (h', left, right)"
  shows "num left = i" "num right = num sl - i"
    "head left = head sl" "head right = alloc h"
    "maxLevel left = maxLevel sl" "maxLevel right = maxLevel sl"
    "alloc h' = Suc (alloc h)"
proof -
  obtain h0 rh where nn: "newNode h None (maxLevel sl) = (h0, rh)" by (cases "newNode h None (maxLevel sl)")
  have rh: "rh = alloc h" and a0: "alloc h0 = Suc (alloc h)"
    using nn by (auto simp: newNode_def)
  from assms obtain n pos sl1 h1 where
    s: "searchByPosition h0 sl i True = ret (n, pos, sl1)" and
    loop: "for_levels (split_step sl1 rh i) [0..<Suc (level sl1)] h0 = ret h1" and
    l: "resetMaxLevel h1 (sl1\<lparr>num := num sl1 - (num sl1 - i)\<rparr>) = ret left" and
    r: "resetMaxLevel h1 \<lparr>maxLevel = maxLevel sl, level = level sl, head = rh, num = num sl1 - i,
            cache = replicate (maxLevel sl) None, posCache = replicate (maxLevel sl) 0\<rparr> = ret right" and
    h': "h' = h1"
    unfolding splitAt_def nn by (auto simp: bnd_eq_ret Let_def split: prod.splits)
  note f = searchByPosition_fields [OF s]
  show "num left = i" using resetMaxLevel_fields(1) [OF l] by simp
  show "num right = num sl - i" using resetMaxLevel_fields(1) [OF r] f by simp
  show "head left = head sl" using resetMaxLevel_fields(3) [OF l] f by simp
  show "head right = alloc h" using resetMaxLevel_fields(3) [OF r] rh by simp
  show "maxLevel left = maxLevel sl" using resetMaxLevel_fields(2) [OF l] f by simp
  show "maxLevel right = maxLevel sl" using resetMaxLevel_fields(2) [OF r] by simp
  have "alloc h1 = alloc h0"
  proof (rule for_levels_up_partial [where Q = "\<lambda>k s. alloc s = alloc h0", OF loop])
    show "alloc h0 = alloc h0" by simp
    show "0 \<le> Suc (level sl1)" by simp
  next
    fix k s s'
    assume "alloc s = alloc h0" and "split_step sl1 rh i k s = ret s'"
    then show "alloc s' = alloc h0" using split_step_alloc [of sl1 rh i k s s'] by simp
  qed
  then show "alloc h' = Suc (alloc h)" using h' a0 by simp
qed

section \<open>The claims\<close>

subsection \<open>C9: construction\<close>

text \<open>
  C9, as the code has it.  \<^verbatim>\<open>New\<close> has no error result and its type switch has no
  default branch: for the unsigned integer types it sets \<open>maxLevel\<close> to 8, 16, 32 or 64,
  and for every other argument it returns a handle whose \<open>maxLevel\<close> is 0.  That handle
  has empty trails and a head without levels, and every by-key insertion into it panics
  with an index out of range.
\<close>

theorem C9_New_never_fails:
  "maxLevel (snd (New h t)) =
     (case t of TUint8 \<Rightarrow> 8 | TUint16 \<Rightarrow> 16 | TUint32 \<Rightarrow> 32 | TUint64 \<Rightarrow> 64 | TUint \<Rightarrow> 64 | TOther \<Rightarrow> 0)
   \<and> insert1 draws (fst (New h TOther)) (snd (New h TOther)) e = panic IndexOutOfRange"
proof -
  have a: "maxLevel (snd (New h t)) =
     (case t of TUint8 \<Rightarrow> 8 | TUint16 \<Rightarrow> 16 | TUint32 \<Rightarrow> 32 | TUint64 \<Rightarrow> 64 | TUint \<Rightarrow> 64 | TOther \<Rightarrow> 0)"
    by (simp add: New_def init_def maxLevel_of_def newNode_def split: gotype.splits)
  have "1 \<le> generateLevel 0 draws"
    unfolding generateLevel_def by (rule generateLevel_from_ge)
  then obtain k where k: "generateLevel 0 draws = Suc k"
    by (cases "generateLevel 0 draws") auto
  have u: "[0..<Suc k] = 0 # [Suc 0..<Suc k]"
    by (simp add: upt_conv_Cons)
  have b: "insert1 draws (fst (New h TOther)) (snd (New h TOther)) e = panic IndexOutOfRange"
    by (simp add: insert1_def search_def New_def init_def maxLevel_of_def newNode_def
        insertNode_def k u raise_step_def put_def Let_def del: upt_Suc)
  from a b show ?thesis by simp
qed

text \<open>C9 as stated fails: for an unsupported argument \<^verbatim>\<open>New\<close> does not fail, it
  returns this handle.\<close>

theorem C9_counterexample:
  "snd (New heap0 TOther) =
     \<lparr>maxLevel = 0, level = 0, head = 0, num = 0, cache = [], posCache = []\<rparr>"
  by (simp add: New_def init_def maxLevel_of_def newNode_def heap0_def)

subsection \<open>C8: GetWithPosition on a missing key\<close>

text \<open>
  C8 at a failing input.  The list holds the keys 1 and 3; key 2 is missing.
  \<^verbatim>\<open>Get\<close> answers nil, but \<^verbatim>\<open>GetWithPosition\<close> never compares the node it
  found with the key: it returns the successor, the entry with key 3, and its rank 1.
\<close>

theorem C8_GetWithPosition_missing_key:
  "bnd (run [OpInsert (draws_for 1) (1, 10), OpInsert (draws_for 1) (3, 30)] (New heap0 TUint8))
     (\<lambda>(h, sl). bnd (GetWithPosition h sl (2, 0)) (\<lambda>r. bnd (Get h sl [(2, 0)]) (\<lambda>g. ret (r, g))))
   = ret ((Some (3, 30), 1), [None])"
  by code_simp

subsection \<open>C10, C4, C6: a delete leaves a width on a nil pointer\<close>

text \<open>
  C10 at a failing input.  Insert key 1 with height 1 and key 2 with height 2, then delete
  key 2.  At level 1 the head pointed to the deleted node with width 2; the delete sets
  the pointer to nil and the width to \<open>2 + 0 - 1 = 1\<close>, and the loop that lowers the
  level clears \<open>widths[level]\<close>, not \<open>widths[level - 1]\<close>.  The list then has one entry,
  and \<^verbatim>\<open>ByPosition(0)\<close> follows the nil pointer and panics.
\<close>

theorem C10_ByPosition_panics:
  "bnd (run [OpInsert (draws_for 1) (1, 10), OpInsert (draws_for 2) (2, 20), OpDelete (2, 0)]
          (New heap0 TUint8))
     (\<lambda>(h, sl). bnd (get_forward h (Some (head sl)) 1) (\<lambda>f. bnd (get_width h (Some (head sl)) 1) (\<lambda>w.
        ret (Len sl, level sl, f, w, ByPosition h sl 0))))
   = ret (1, 1, None, 1, panic NilDeref)"
  by code_simp

text \<open>
  C4 at a failing input.  Keys 1 (height 2), 2 (height 1), 3 (height 2), then delete key 3:
  the list has two entries, \<^verbatim>\<open>ByPosition(0)\<close> returns the first, and
  \<^verbatim>\<open>ByPosition(1)\<close>, which is in range, panics instead of returning the second.
\<close>

theorem C4_ByPosition_in_range_panics:
  "bnd (run [OpInsert (draws_for 2) (1, 10), OpInsert (draws_for 1) (2, 20),
             OpInsert (draws_for 2) (3, 30), OpDelete (3, 0)] (New heap0 TUint8))
     (\<lambda>(h, sl). bnd (ByPosition h sl 0) (\<lambda>r0. ret (Len sl, r0, ByPosition h sl 1)))
   = ret (2, Some (1, 10), panic NilDeref)"
  by code_simp

text \<open>
  C6 at a failing input.  In the list left by the run of C10 (one entry),
  \<^verbatim>\<open>InsertAtPosition(1, e)\<close> panics in its search by position: nothing is inserted.
\<close>

theorem C6_InsertAtPosition_panics:
  "bnd (run [OpInsert (draws_for 1) (1, 10), OpInsert (draws_for 2) (2, 20), OpDelete (2, 0)]
          (New heap0 TUint8))
     (\<lambda>(h, sl). bnd (InsertAtPosition (draws_for 1) h sl 1 (5, 50)) (\<lambda>(h', sl'). ret (Len sl')))
   = panic NilDeref"
  by code_simp

subsection \<open>C7: the boundary of SplitAt\<close>

text \<open>
  C7 as stated fails: in a list of two entries, \<^verbatim>\<open>SplitAt(1)\<close> has an index below
  \<^verbatim>\<open>Len()\<close>, and still no split is made and the right handle is nil.
\<close>

theorem C7_counterexample:
  "bnd (run [OpInsert (draws_for 1) (1, 10), OpInsert (draws_for 1) (3, 30)] (New heap0 TUint8))
     (\<lambda>(h, sl). bnd (SplitAt h sl 1) (\<lambda>(h', left, right). ret (Len sl, Len left, right)))
   = ret (2, 2, None)"
  by code_simp

text \<open>
  An index below \<^verbatim>\<open>Len() - 1\<close> does not always give a split either: \<^verbatim>\<open>delete\<close> can leave
  a nonzero width on a forward pointer of the head that it has set to nil, and the search
  by position inside \<^verbatim>\<open>splitAt\<close> then steps onto nil.  Here the list holds the keys 1 and
  3, and \<^verbatim>\<open>SplitAt(0)\<close> panics.
\<close>

lemma SplitAt_in_range_panics:
  "bnd (run [OpInsert (draws_for 1) (1, 10), OpInsert (draws_for 2) (2, 20), OpDelete (2, 0),
             OpInsert (draws_for 1) (3, 30)] (New heap0 TUint8))
     (\<lambda>(h, sl). bnd (SplitAt h sl 0) (\<lambda>(h', left, right). ret (Len left, right)))
   = panic NilDeref"
  by code_simp

text \<open>
  C7, as the code has it.  For an index below \<open>2^64 - 1\<close>, whenever \<^verbatim>\<open>SplitAt(index)\<close>
  returns:
  \<^item> the right handle is nil exactly when \<open>index + 1 \<ge> Len()\<close>, that is when the index is
    the last position or beyond it, and then the store and the list are returned as they
    were;
  \<^item> otherwise a split has been made by \<^verbatim>\<open>splitAt\<close>: the right handle is not nil, its head
    is a node allocated by this call (the only one allocated), the left list keeps the head
    and the capacity of the receiver, the right list has the same capacity, the left list
    has \<open>index + 1\<close> entries and the right list the remaining \<open>Len() - (index + 1)\<close>.
\<close>

theorem C7_SplitAt_boundary:
  assumes "SplitAt h sl index = Some (Inr (h', left, right))" and "index \<noteq> - 1"
  shows "(right = None \<longleftrightarrow> unat (Len sl) \<le> unat index + 1) \<and>
         (right = None \<longrightarrow> h' = h \<and> left = sl) \<and>
         (\<forall>r. right = Some r \<longrightarrow>
            unat (Len left) = unat index + 1 \<and>
            unat (Len r) = unat (Len sl) - (unat index + 1) \<and>
            head r = alloc h \<and> alloc h' = Suc (alloc h) \<and> head left = head sl \<and>
            maxLevel left = maxLevel sl \<and> maxLevel r = maxLevel sl)"
proof -
  have "1 + index \<noteq> 0"
    using assms(2) by (simp add: eq_neg_iff_add_eq_0 add.commute)
  then have ne: "unat (index + 1) = unat index + 1"
    using unatSuc [of index] by (simp add: add.commute)
  show ?thesis
  proof (cases "index + 1 \<ge> num sl")
    case True
    then show ?thesis
      using assms(1) unfolding SplitAt_def Let_def Len_def
      by (auto simp: ret_def word_le_nat_alt ne)
  next
    case False
    then obtain r where sp: "splitAt h sl (index + 1) = ret (h', left, r)" and r: "right = Some r"
      using assms(1) unfolding SplitAt_def Let_def
      by (auto simp: bnd_eq_ret ret_def [symmetric] split: prod.splits)
    note f = splitAt_fields [OF sp]
    have lt: "unat index + 1 < unat (num sl)"
      using False by (simp add: word_le_nat_alt ne)
    have "unat (num sl - (index + 1)) = unat (num sl) - unat (index + 1)"
      using lt ne by (intro unat_sub) (simp add: word_le_nat_alt)
    then show ?thesis
      using f r lt ne by (simp add: Len_def)
  qed
qed

theorem C7_SplitAt_boundary_witness:
  "\<exists>h sl h' left r.
     run [OpInsert (draws_for 1) (1, 10), OpInsert (draws_for 1) (3, 30)] (New heap0 TUint8)
       = Some (Inr (h, sl)) \<and>
     SplitAt h sl 0 = Some (Inr (h', left, Some r)) \<and> (0 :: u64) \<noteq> - 1 \<and> Len sl = 2 \<and>
     \<not> unat (Len sl) \<le> unat (0 :: u64) + 1 \<and>
     unat (Len left) = 1 \<and> unat (Len r) = 1 \<and> head r = alloc h \<and> head left = head sl"
proof -
  define r where "r = run [OpInsert (draws_for 1) (1, 10), OpInsert (draws_for 1) (3, 30)] (New heap0 TUint8)"
  have ev: "case r of
          Some (Inr (h, sl)) \<Rightarrow>
            (case SplitAt h sl 0 of
               Some (Inr (h', left, right)) \<Rightarrow> Len sl = 2 \<and> (case right of None \<Rightarrow> False | Some r \<Rightarrow> True)
             | _ \<Rightarrow> False)
        | _ \<Rightarrow> False"
    unfolding r_def by code_simp
  obtain h sl where r: "r = Some (Inr (h, sl))"
    using ev by (cases r) (auto split: sum.splits)
  define q where "q = SplitAt h sl 0"
  have ev2: "case q of Some (Inr (h', left, right)) \<Rightarrow>
               Len sl = 2 \<and> (case right of None \<Rightarrow> False | Some r \<Rightarrow> True) | _ \<Rightarrow> False"
    using ev unfolding r q_def by simp
  obtain h' left right where s: "q = Some (Inr (h', left, right))"
    using ev2 by (cases q) (auto split: sum.splits)
  have l: "Len sl = 2" and n: "right \<noteq> None"
    using ev2 unfolding s by (auto split: option.splits)
  obtain rr where rr: "right = Some rr" using n by (cases right) auto
  have z: "(0 :: u64) \<noteq> - 1" by simp
  have s': "SplitAt h sl 0 = Some (Inr (h', left, Some rr))"
    using s rr by (simp add: q_def)
  have "unat (Len left) = 1 \<and> unat (Len rr) = 1 \<and> head rr = alloc h \<and> head left = head sl \<and>
        \<not> unat (Len sl) \<le> unat (0 :: u64) + 1"
    using C7_SplitAt_boundary [OF s' z] l by simp
  with r s' l z show ?thesis
    unfolding r_def by blast
qed

subsection \<open>C3: the order invariant\<close>

text \<open>
  C3.  Start from a list made by \<^verbatim>\<open>New\<close> for a supported class and run any sequence
  of by-key inserts and deletes (fewer than \<open>2^64\<close> of them), with any random draws.
  Every operation returns (no panic, no endless loop), and in the final state following
  the level-0 forward pointers from the head ends at nil after visiting exactly
  \<^verbatim>\<open>Len()\<close> nodes, whose keys are strictly ascending: positions \<open>0\<close> to
  \<open>Len() - 1\<close> hold strictly ascending keys and no key twice.
\<close>

theorem C3_order_invariant:
  assumes "t \<noteq> TOther" "\<forall>x \<in> set ops. by_key x" "length ops < 2 ^ 64"
  shows "\<exists>h sl ns. run ops (New h0 t) = ret (h, sl) \<and> level0 h sl = Some ns \<and>
           length ns = unat (Len sl) \<and> sorted_wrt (<) (map (key_of h) ns)"
proof -
  obtain h1 sl1 where n: "New h0 t = (h1, sl1)" by (cases "New h0 t")
  have i: "sl_inv h1 sl1 []" by (rule sl_inv_New [OF assms(1) n])
  have o: "ordered h1 []" by (simp add: ordered_def)
  from run_by_key_inv [OF i o assms(2)] assms(3) obtain h sl ns where
    r: "run ops (h1, sl1) = ret (h, sl)" "sl_inv h sl ns" "ordered h ns" by auto
  have "length ns = unat (Len sl)"
    using sl_inv_num [OF r(2)] by (simp add: Len_def unat_of_nat_u64)
  then show ?thesis
    using r sl_inv_level0 [OF r(2)] unfolding n ordered_def by blast
qed

text \<open>C3 at a concrete run: four inserts, one of them an update, a delete and one more
  insert.\<close>

theorem C3_order_invariant_witness:
  "\<exists>h sl ns. run [OpInsert (draws_for 2) (3, 30), OpInsert (draws_for 1) (1, 10),
                   OpInsert (draws_for 3) (4, 40), OpInsert (draws_for 1) (1, 11),
                   OpDelete (3, 0), OpInsert (draws_for 2) (2, 20)] (New heap0 TUint8) = ret (h, sl) \<and>
      level0 h sl = Some ns \<and> length ns = unat (Len sl) \<and> sorted_wrt (<) (map (key_of h) ns)"
  by (rule C3_order_invariant) (simp_all add: by_key_def)

subsection \<open>C5: inserting an entry whose key is present\<close>

text \<open>
  C5 as stated fails for a list that \<^verbatim>\<open>InsertAtPosition\<close> has put out of key order.
  The list holds the keys 5 and 1 in this order (key 1 at position 1); the search for key 1
  stops at the first node, so \<^verbatim>\<open>Insert\<close> of an entry with key 1 adds a node:
  nothing is returned as overwritten and \<^verbatim>\<open>Len()\<close> goes from 2 to 3.
\<close>

theorem C5_counterexample:
  "bnd (run [OpInsert (draws_for 1) (5, 50), OpInsertAtPosition (draws_for 1) 1 (1, 10)]
          (New heap0 TUint8))
     (\<lambda>(h, sl). bnd (ByPosition h sl 1) (\<lambda>p. bnd (insert1 (draws_for 1) h sl (1, 11))
        (\<lambda>(h', sl', r). ret (p, Len sl, r, Len sl'))))
   = ret (Some (1, 10), 2, None, 3)"
  by code_simp

text \<open>
  C5, for the lists that by-key operations build.  Take a list reached from \<^verbatim>\<open>New\<close>
  (supported class) by by-key inserts and deletes only, let \<open>ns\<close> be its nodes in level-0
  order and \<open>b\<close> one of them whose key is the key of \<open>e\<close>.  Then \<^verbatim>\<open>Insert(e)\<close>
  returns the entry that \<open>b\<close> held before; afterwards \<open>b\<close> holds \<open>e\<close>, every other node
  holds what it held, no forward pointer and no width has changed, \<^verbatim>\<open>Len()\<close>, the level
  and the head are the same, and the level-0 order is still \<open>ns\<close>, so every entry keeps its
  rank.
\<close>

theorem C5_insert_update:
  assumes "t \<noteq> TOther" "\<forall>x \<in> set ops. by_key x" "length ops < 2 ^ 64"
    and "run ops (New h0 t) = ret (h, sl)" "level0 h sl = Some ns"
    and "b \<in> set ns" "key_of h b = fst e"
  shows "\<exists>h' sl'. insert1 draws h sl e = ret (h', sl', entry (cells h b)) \<and>
           entry (cells h' b) = Some e \<and> (\<forall>a. a \<noteq> b \<longrightarrow> entry (cells h' a) = entry (cells h a)) \<and>
           (\<forall>a. forward (cells h' a) = forward (cells h a) \<and> widths (cells h' a) = widths (cells h a)) \<and>
           Len sl' = Len sl \<and> level sl' = level sl \<and> head sl' = head sl \<and>
           level0 h' sl' = Some ns"
proof -
  obtain h1 sl1 where n: "New h0 t = (h1, sl1)" by (cases "New h0 t")
  have i: "sl_inv h1 sl1 []" by (rule sl_inv_New [OF assms(1) n])
  have o: "ordered h1 []" by (simp add: ordered_def)
  from run_by_key_inv [OF i o assms(2)] assms(3) obtain h2 sl2 ns2 where
    r: "run ops (h1, sl1) = ret (h2, sl2)" "sl_inv h2 sl2 ns2" "ordered h2 ns2" by auto
  have eq: "h2 = h" "sl2 = sl" using r(1) assms(4) unfolding n by simp_all
  have inv: "sl_inv h sl ns2" and ord: "ordered h ns2" using r(2,3) eq by simp_all
  have ns: "ns2 = ns" using sl_inv_level0 [OF inv] assms(5) by simp
  from insert1_update [OF inv ord assms(6) [folded ns] assms(7), of draws] obtain c pc where
    u: "insert1 draws h sl e
           = ret (set_entry h b (Some e), sl\<lparr>cache := c, posCache := pc\<rparr>, entry (cells h b))"
    and inv': "sl_inv (set_entry h b (Some e)) (sl\<lparr>cache := c, posCache := pc\<rparr>) ns2"
    by blast
  show ?thesis
    using u sl_inv_level0 [OF inv'] ns
    by (intro exI [of _ "set_entry h b (Some e)"] exI [of _ "sl\<lparr>cache := c, posCache := pc\<rparr>"])
      (simp add: set_entry_def Len_def)
qed

text \<open>C5 at a concrete list: keys 1 and 3, then \<^verbatim>\<open>Insert\<close> of a new value for key 1.\<close>

theorem C5_insert_update_witness:
  "\<exists>h sl ns b h' sl'.
     run [OpInsert (draws_for 2) (3, 30), OpInsert (draws_for 1) (1, 10)] (New heap0 TUint8)
       = ret (h, sl) \<and>
     level0 h sl = Some ns \<and> b \<in> set ns \<and> key_of h b = fst ((1, 99) :: Entry) \<and>
     insert1 (draws_for 3) h sl (1, 99) = ret (h', sl', entry (cells h b)) \<and>
     entry (cells h' b) = Some (1, 99) \<and> Len sl' = Len sl \<and> level0 h' sl' = Some ns"
proof -
  define ops where "ops = [OpInsert (draws_for 2) (3, 30), OpInsert (draws_for 1) (1, 10)]"
  define r where "r = run ops (New heap0 TUint8)"
  have ev: "case r of Some (Inr (h, sl)) \<Rightarrow>
              (case level0 h sl of Some ns \<Rightarrow> map (key_of h) ns = [1, 3] | None \<Rightarrow> False)
            | _ \<Rightarrow> False"
    unfolding r_def ops_def by code_simp
  obtain h sl where r: "r = ret (h, sl)"
    using ev by (cases r) (auto simp: ret_def split: sum.splits)
  obtain ns where l: "level0 h sl = Some ns" and k: "map (key_of h) ns = [1, 3]"
    using ev unfolding r by (cases "level0 h sl") (auto simp: ret_def)
  obtain b ns' where b: "ns = b # ns'" "key_of h b = 1" using k by (cases ns) auto
  have bin: "b \<in> set ns" using b by simp
  have kb: "key_of h b = fst ((1, 99) :: Entry)" using b by simp
  have bk: "\<forall>x \<in> set ops. by_key x" by (simp add: ops_def by_key_def)
  have t: "TUint8 \<noteq> TOther" by simp
  have len: "length ops < 2 ^ 64" by (simp add: ops_def)
  from C5_insert_update [OF t bk len r [unfolded r_def] l bin kb, of "draws_for 3"]
  show ?thesis using r l bin kb unfolding r_def ops_def by blast
qed

end
